theory Spec2Isabelle
  imports Main "HOL-Library.Sublist"
begin

section \<open>Strings of the site generator\<close>

text \<open>
  The program under study is \<^verbatim>\<open>scripts/generate_site.py\<close>. Its two functions with
  decision logic are \<^verbatim>\<open>parse_response\<close>, which cuts the text returned by the
  generation service into named files, and \<^verbatim>\<open>write_files\<close>, which stores them.

  A Python \<^verbatim>\<open>str\<close> is a sequence of code points. It is modelled by \<^typ>\<open>string\<close>, one
  \<^typ>\<open>char\<close> per code point, which covers the code points below 256. On these,
  \<^verbatim>\<open>str.isspace\<close>, the whitespace of \<^verbatim>\<open>str.strip\<close> and the class \<^verbatim>\<open>\s\<close> of the
  module \<^verbatim>\<open>re\<close> (on \<^verbatim>\<open>str\<close> patterns) coincide and hold of exactly twelve code points.
\<close>

definition is_space :: "char \<Rightarrow> bool" where
  "is_space c = (of_char c \<in> set [9, 10, 11, 12, 13, 28, 29, 30, 31, 32, 133, 160 :: nat])"

text \<open>The classes \<^verbatim>\<open>[a-z]\<close>, \<^verbatim>\<open>[a-zA-Z]\<close> and \<^verbatim>\<open>[a-zA-Z0-9_.\-/]\<close>.\<close>

definition is_lower :: "char \<Rightarrow> bool" where
  "is_lower c = (let n = of_char c :: nat in 97 \<le> n \<and> n \<le> 122)"

definition is_alpha :: "char \<Rightarrow> bool" where
  "is_alpha c = (let n = of_char c :: nat in (65 \<le> n \<and> n \<le> 90) \<or> (97 \<le> n \<and> n \<le> 122))"

definition is_fname :: "char \<Rightarrow> bool" where
  "is_fname c =
     (let n = of_char c :: nat
      in (65 \<le> n \<and> n \<le> 90) \<or> (97 \<le> n \<and> n \<le> 122) \<or> (48 \<le> n \<and> n \<le> 57)
         \<or> c = CHR ''_'' \<or> c = CHR ''.'' \<or> c = CHR ''-'' \<or> c = CHR ''/'')"

text \<open>\<^verbatim>\<open>str.lstrip()\<close>, \<^verbatim>\<open>str.rstrip()\<close> and \<^verbatim>\<open>str.strip()\<close> without argument.\<close>

definition py_lstrip :: "string \<Rightarrow> string" where
  "py_lstrip s = dropWhile is_space s"

definition py_rstrip :: "string \<Rightarrow> string" where
  "py_rstrip s = rev (dropWhile is_space (rev s))"

definition py_strip :: "string \<Rightarrow> string" where
  "py_strip s = py_rstrip (py_lstrip s)"

section \<open>The regular expressions of the module re\<close>

text \<open>
  The five patterns of the program use literals, repeated character classes (greedy and
  lazy, with bounds), one alternation, capture groups and the anchors \<^verbatim>\<open>^\<close> and \<^verbatim>\<open>$\<close>.
  A pattern is the list of its items, and \<open>mt\<close> is the backtracking matcher of
  \<^verbatim>\<open>re\<close>: it matches the first item and then the remaining ones, and when the remaining ones
  fail it comes back to the next choice of the item, a greedy repetition giving up one
  character at a time and a lazy one taking one more.
\<close>

datatype rep_mode = Greedy | Lazy

datatype atom =
    Lit string
  | Rep rep_mode nat "nat option" "char \<Rightarrow> bool"
  | Alt "atom list" "atom list"
  | GOpen nat
  | GClose nat
  | Bos
  | Eos

text \<open>
  The state of a match attempt: the text before the current position (from the start of
  the whole string), the text from it on, the positions where groups were opened and the
  text of the groups closed so far.
\<close>

record mstate =
  seen :: string
  rest :: string
  opened :: "nat \<rightharpoonup> nat"
  grp :: "nat \<rightharpoonup> string"

fun psize :: "atom \<Rightarrow> nat" where
  "psize (Alt a b) = Suc (sum_list (map psize a) + sum_list (map psize b))"
| "psize _ = 1"

text \<open>
  \<open>Rep m lo hi cls\<close> is the class \<open>cls\<close> repeated at least \<open>lo\<close> and at most \<open>hi\<close> times
  (\<open>None\<close>: no upper bound). \<open>Bos\<close> is \<^verbatim>\<open>^\<close> without \<^verbatim>\<open>re.MULTILINE\<close>: the start of the
  string. \<open>Eos\<close> is \<^verbatim>\<open>$\<close> without \<^verbatim>\<open>re.MULTILINE\<close>: the end of the string, or just before a
  newline that ends the string.
\<close>

function (sequential) mt :: "atom list \<Rightarrow> mstate \<Rightarrow> mstate option" where
  "mt [] st = Some st"
| "mt (Lit l # p) st =
     (if prefix l (rest st)
      then mt p (st\<lparr>seen := seen st @ l, rest := drop (length l) (rest st)\<rparr>)
      else None)"
| "mt (Rep m lo hi cls # p) st =
     (let more = (case rest st of
                    [] \<Rightarrow> None
                  | c # cs \<Rightarrow>
                      if cls c \<and> hi \<noteq> Some 0
                      then mt (Rep m (lo - 1) (map_option (\<lambda>h. h - 1) hi) cls # p)
                              (st\<lparr>seen := seen st @ [c], rest := cs\<rparr>)
                      else None);
          stop = (if lo = 0 then mt p st else None)
      in case m of
           Greedy \<Rightarrow> (case more of Some r \<Rightarrow> Some r | None \<Rightarrow> stop)
         | Lazy \<Rightarrow> (case stop of Some r \<Rightarrow> Some r | None \<Rightarrow> more))"
| "mt (Alt a b # p) st =
     (case mt (a @ p) st of Some r \<Rightarrow> Some r | None \<Rightarrow> mt (b @ p) st)"
| "mt (GOpen n # p) st = mt p (st\<lparr>opened := (opened st)(n \<mapsto> length (seen st))\<rparr>)"
| "mt (GClose n # p) st =
     mt p (st\<lparr>grp := (grp st)(n \<mapsto> (case opened st n of
                                         Some i \<Rightarrow> drop i (seen st)
                                       | None \<Rightarrow> []))\<rparr>)"
| "mt (Bos # p) st = (if seen st = [] then mt p st else None)"
| "mt (Eos # p) st =
     (if rest st = [] \<or> rest st = [CHR 0x0A] then mt p st else None)"
  by pat_completeness auto
termination
  by (relation "measures [\<lambda>(p, st). sum_list (map psize p), \<lambda>(p, st). length (rest st)]")
     auto

text \<open>
  A match object: where the match starts and ends in the whole string, and its groups
  (\<open>None\<close> for a group that took no part in the match, as \<^verbatim>\<open>m.group(n)\<close> gives).
\<close>

record rmatch =
  m_start :: nat
  m_end :: nat
  m_group :: "nat \<rightharpoonup> string"

definition start_at :: "string \<Rightarrow> string \<Rightarrow> mstate" where
  "start_at bef s = \<lparr>seen = bef, rest = s, opened = Map.empty, grp = Map.empty\<rparr>"

definition mk_match :: "string \<Rightarrow> mstate \<Rightarrow> rmatch" where
  "mk_match bef r = \<lparr>m_start = length bef, m_end = length (seen r), m_group = grp r\<rparr>"

text \<open>\<^verbatim>\<open>search\<close>: the leftmost position, from the current one on, where the pattern matches.\<close>

fun search :: "atom list \<Rightarrow> string \<Rightarrow> string \<Rightarrow> rmatch option" where
  "search p bef [] = map_option (mk_match bef) (mt p (start_at bef []))"
| "search p bef (c # cs) =
     (case mt p (start_at bef (c # cs)) of
        Some r \<Rightarrow> Some (mk_match bef r)
      | None \<Rightarrow> search p (bef @ [c]) cs)"

section \<open>Matches consume text\<close>

declare mt.simps [simp del]

lemma mt_Rep_cases:
  assumes "mt (Rep m lo hi cls # p) st = Some r"
  shows "(lo = 0 \<and> mt p st = Some r) \<or>
         (\<exists>c cs. rest st = c # cs \<and> cls c \<and> hi \<noteq> Some 0 \<and>
            mt (Rep m (lo - 1) (map_option (\<lambda>h. h - 1) hi) cls # p)
               (st\<lparr>seen := seen st @ [c], rest := cs\<rparr>) = Some r)"
  using assms
  by (subst (asm) mt.simps)
     (simp add: Let_def split: rep_mode.splits option.splits list.splits if_splits)

lemma mt_consumes:
  "mt p st = Some r \<Longrightarrow> \<exists>u. seen r = seen st @ u \<and> rest st = u @ rest r"
proof (induction p st arbitrary: r rule: mt.induct)
  case (1 st)
  then show ?case by (simp add: mt.simps)
next
  case (2 l p st)
  from "2.prems" have pre: "prefix l (rest st)"
    and run: "mt p (st\<lparr>seen := seen st @ l, rest := drop (length l) (rest st)\<rparr>) = Some r"
    by (simp_all add: mt.simps split: if_splits)
  from "2.IH"[OF pre run] obtain u where
    u: "seen r = (seen st @ l) @ u" "drop (length l) (rest st) = u @ rest r" by auto
  from pre obtain t where t: "rest st = l @ t" by (auto simp: prefix_def)
  with u have "seen r = seen st @ (l @ u)" "rest st = (l @ u) @ rest r" by simp_all
  then show ?case by blast
next
  case (3 m lo hi cls p st)
  from mt_Rep_cases[OF "3.prems"] show ?case
  proof (elim disjE conjE exE)
    assume "lo = 0" "mt p st = Some r"
    then show ?thesis using "3.IH"(2)[OF refl] by blast
  next
    fix c cs
    assume a: "rest st = c # cs" "cls c" "hi \<noteq> Some 0"
      "mt (Rep m (lo - 1) (map_option (\<lambda>h. h - 1) hi) cls # p)
          (st\<lparr>seen := seen st @ [c], rest := cs\<rparr>) = Some r"
    from "3.IH"(1)[OF a(1) _ a(4)] a(2,3) obtain u where
      "seen r = (seen st @ [c]) @ u" "cs = u @ rest r" by auto
    with a(1) have "seen r = seen st @ (c # u)" "rest st = (c # u) @ rest r" by simp_all
    then show ?thesis by blast
  qed
next
  case (4 a b p st)
  show ?case
  proof (cases "mt (a @ p) st")
    case None
    with "4.prems" have "mt (b @ p) st = Some r" by (simp add: mt.simps)
    from "4.IH"(2)[OF None this] show ?thesis .
  next
    case (Some r')
    with "4.prems" have "r' = r" by (simp add: mt.simps)
    with Some "4.IH"(1) show ?thesis by blast
  qed
next
  case (5 n p st)
  from "5.prems" have
    "mt p (st\<lparr>opened := (opened st)(n \<mapsto> length (seen st))\<rparr>) = Some r"
    by (simp add: mt.simps)
  from "5.IH"[OF this] show ?case by simp
next
  case (6 n p st)
  from "6.prems" have
    "mt p (st\<lparr>grp := (grp st)(n \<mapsto> (case opened st n of
                                         Some i \<Rightarrow> drop i (seen st)
                                       | None \<Rightarrow> []))\<rparr>) = Some r"
    by (simp add: mt.simps)
  from "6.IH"[OF this] show ?case by simp
next
  case (7 p st)
  from "7.prems" have "seen st = []" "mt p st = Some r"
    by (simp_all add: mt.simps split: if_splits)
  from "7.IH"[OF this] show ?case .
next
  case (8 p st)
  from "8.prems" have "rest st = [] \<or> rest st = [CHR 0x0A]" "mt p st = Some r"
    by (simp_all add: mt.simps split: if_splits)
  from "8.IH"[OF this] show ?case .
qed

lemma search_bounds:
  "search p bef s = Some m \<Longrightarrow>
     length bef \<le> m_start m \<and> m_start m \<le> m_end m \<and> m_end m \<le> length bef + length s"
proof (induction s arbitrary: bef)
  case Nil
  then obtain r where r: "mt p (start_at bef []) = Some r" "m = mk_match bef r" by auto
  from mt_consumes[OF r(1)] have "seen r = bef" by (simp add: start_at_def)
  with r(2) show ?case by (simp add: mk_match_def)
next
  case (Cons c cs)
  show ?case
  proof (cases "mt p (start_at bef (c # cs))")
    case None
    with Cons.prems have "search p (bef @ [c]) cs = Some m" by simp
    from Cons.IH[OF this] show ?thesis by simp
  next
    case (Some r)
    with Cons.prems have m: "m = mk_match bef r" by simp
    from mt_consumes[OF Some] obtain u where
      "seen r = bef @ u" "c # cs = u @ rest r" by (auto simp: start_at_def)
    then have "length (seen r) = length bef + length u" "length u \<le> length (c # cs)"
      by (simp, metis length_append le_add1)
    with m show ?thesis by (simp add: mk_match_def)
  qed
qed

section \<open>finditer, split and sub\<close>

text \<open>
  \<^verbatim>\<open>finditer\<close> gives the matches from left to right, each search starting where the
  previous match ended. After an empty match the scan moves one character on; none of the
  patterns of the program matches the empty string (each contains a literal of three
  characters, see \<open>patterns_not_empty\<close> below), so that branch is never taken by the
  program.
\<close>

function finditer_from :: "atom list \<Rightarrow> string \<Rightarrow> nat \<Rightarrow> rmatch list" where
  "finditer_from p s pos =
     (if length s < pos then []
      else case search p (take pos s) (drop pos s) of
             None \<Rightarrow> []
           | Some m \<Rightarrow>
               m # finditer_from p s (if m_start m < m_end m then m_end m else Suc (m_end m)))"
  by pat_completeness auto
termination
proof (relation "measure (\<lambda>(p, s, pos). Suc (length s) - pos)", goal_cases)
  case 1
  then show ?case by simp
next
  case (2 p s pos m)
  from 2(1) have le: "pos \<le> length s" by simp
  then have "length (take pos s) = pos" "length (drop pos s) = length s - pos" by simp_all
  with search_bounds[OF 2(2)] le
  have "pos \<le> m_start m" "m_start m \<le> m_end m" "m_end m \<le> length s" by simp_all
  then show ?case by auto
qed

declare finditer_from.simps [simp del]

definition finditer :: "atom list \<Rightarrow> string \<Rightarrow> rmatch list" where
  "finditer p s = finditer_from p s 0"

text \<open>
  \<^verbatim>\<open>re.split\<close> for a pattern with one group: the text before the first match, then for
  every match its group 1 and the text up to the next match (or to the end). The group is
  \<open>None\<close> when it took no part in the match.
\<close>

fun split_parts :: "string \<Rightarrow> nat \<Rightarrow> rmatch list \<Rightarrow> string option list" where
  "split_parts s k0 [] = [Some (drop k0 s)]"
| "split_parts s k0 (m # ms) =
     Some (take (m_start m - k0) (drop k0 s)) # m_group m 1 # split_parts s (m_end m) ms"

definition re_split :: "atom list \<Rightarrow> string \<Rightarrow> string option list" where
  "re_split p s = split_parts s 0 (finditer p s)"

text \<open>\<^verbatim>\<open>re.sub\<close> with a replacement that has no group reference.\<close>

fun sub_parts :: "string \<Rightarrow> string \<Rightarrow> nat \<Rightarrow> rmatch list \<Rightarrow> string" where
  "sub_parts repl s k0 [] = drop k0 s"
| "sub_parts repl s k0 (m # ms) =
     take (m_start m - k0) (drop k0 s) @ repl @ sub_parts repl s (m_end m) ms"

definition re_sub :: "atom list \<Rightarrow> string \<Rightarrow> string \<Rightarrow> string" where
  "re_sub p repl s = sub_parts repl s 0 (finditer p s)"

section \<open>The patterns of parse\_response\<close>

text \<open>\<^verbatim>\<open>===\s*([^\s=][^=\n]*?)\s*===\<close>\<close>

definition marker_re :: "atom list" where
  "marker_re =
     [Lit ''==='', Rep Greedy 0 None is_space,
      GOpen 1,
        Rep Greedy 1 (Some 1) (\<lambda>c. \<not> is_space c \<and> c \<noteq> CHR ''=''),
        Rep Lazy 0 None (\<lambda>c. c \<noteq> CHR ''='' \<and> c \<noteq> CHR 0x0A),
      GClose 1,
      Rep Greedy 0 None is_space, Lit ''==='']"

text \<open>\<^verbatim>\<open>^```[a-zA-Z]*\n?\<close>\<close>

definition fence_open_re :: "atom list" where
  "fence_open_re =
     [Bos, Lit ''```'', Rep Greedy 0 None is_alpha, Rep Greedy 0 (Some 1) (\<lambda>c. c = CHR 0x0A)]"

text \<open>\<^verbatim>\<open>\n?```\s*$\<close>\<close>

definition fence_close_re :: "atom list" where
  "fence_close_re =
     [Rep Greedy 0 (Some 1) (\<lambda>c. c = CHR 0x0A), Lit ''```'', Rep Greedy 0 None is_space, Eos]"

text \<open>
  \<^verbatim>\<open>(?:#{1,4}\s*|`{3}[a-z]*\n)([a-zA-Z0-9_.\-/]+\.[a-zA-Z]+)\n```[a-zA-Z]*\n(.*?)```\<close>
  with \<^verbatim>\<open>re.DOTALL\<close>: the dot matches every character.
\<close>

definition heading_re :: "atom list" where
  "heading_re =
     [Alt [Rep Greedy 1 (Some 4) (\<lambda>c. c = CHR ''#''), Rep Greedy 0 None is_space]
          [Rep Greedy 3 (Some 3) (\<lambda>c. c = CHR ''`''), Rep Greedy 0 None is_lower,
           Lit [CHR 0x0A]],
      GOpen 1,
        Rep Greedy 1 None is_fname, Lit ''.'', Rep Greedy 1 None is_alpha,
      GClose 1,
      Lit [CHR 0x0A], Lit ''```'', Rep Greedy 0 None is_alpha, Lit [CHR 0x0A],
      GOpen 2, Rep Lazy 0 None (\<lambda>c. True), GClose 2,
      Lit ''```'']"

text \<open>
  \<^verbatim>\<open>\*\*([a-zA-Z0-9_.\-/]+\.[a-zA-Z]+)\*\*\s*\n```[a-zA-Z]*\n(.*?)```\<close> with \<^verbatim>\<open>re.DOTALL\<close>.
\<close>

definition bold_re :: "atom list" where
  "bold_re =
     [Lit ''**'',
      GOpen 1,
        Rep Greedy 1 None is_fname, Lit ''.'', Rep Greedy 1 None is_alpha,
      GClose 1,
      Lit ''**'', Rep Greedy 0 None is_space,
      Lit [CHR 0x0A], Lit ''```'', Rep Greedy 0 None is_alpha, Lit [CHR 0x0A],
      GOpen 2, Rep Lazy 0 None (\<lambda>c. True), GClose 2,
      Lit ''```'']"

section \<open>parse\_response\<close>

text \<open>
  What the source can raise inside the two functions: an index out of range, a method
  call on \<^verbatim>\<open>None\<close> (a group that took no part in a match), and a failure of the
  operating system while creating a directory or writing a file.
\<close>

datatype error = IndexError | AttributeError | OSError string

text \<open>\<^verbatim>\<open>xs[i]\<close> for a non-negative index.\<close>

definition getitem :: "'a list \<Rightarrow> nat \<Rightarrow> error + 'a" where
  "getitem xs i = (if i < length xs then Inr (xs ! i) else Inl IndexError)"

text \<open>\<^verbatim>\<open>x.strip()\<close> where \<^verbatim>\<open>x\<close> is a string or \<^verbatim>\<open>None\<close>.\<close>

definition strip_of :: "string option \<Rightarrow> error + string" where
  "strip_of x = (case x of None \<Rightarrow> Inl AttributeError | Some s \<Rightarrow> Inr (py_strip s))"

text \<open>\<^verbatim>\<open>range(start, stop, step)\<close> for a positive step.\<close>

definition py_range :: "nat \<Rightarrow> nat \<Rightarrow> nat \<Rightarrow> nat list" where
  "py_range start stop step =
     map (\<lambda>k. start + k * step) [0 ..< (stop - start + (step - 1)) div step]"

text \<open>
  A \<^verbatim>\<open>dict\<close> keeps its keys in the order of their first insertion; assigning to a key
  that is present replaces the value where the key stands.
\<close>

type_synonym pydict = "(string \<times> string) list"

fun dict_set :: "string \<Rightarrow> string \<Rightarrow> pydict \<Rightarrow> pydict" where
  "dict_set k v [] = [(k, v)]"
| "dict_set k v ((k', v') # d) =
     (if k' = k then (k, v) # d else (k', v') # dict_set k v d)"

text \<open>What the program prints: the stream and the line.\<close>

datatype stream = Stdout | Stderr

type_synonym console = "(stream \<times> string) list"

text \<open>
  The body of the loop of the primary format, lines 86 to 94 of the source:
  \<^verbatim>\<open>
    filename = parts[i].strip()
    file_content = parts[i + 1].strip() if i + 1 < len(parts) else ""
    file_content = re.sub(r'^```[a-zA-Z]*\n?', '', file_content)
    file_content = re.sub(r'\n?```\s*$', '', file_content.rstrip())
    if filename and file_content:
        files[filename] = file_content.strip()
  \<close>
\<close>

definition section_step :: "string option list \<Rightarrow> nat \<Rightarrow> pydict \<Rightarrow> error + pydict" where
  "section_step parts i files =
     (case getitem parts i of
        Inl e \<Rightarrow> Inl e
      | Inr name \<Rightarrow>
     (case strip_of name of
        Inl e \<Rightarrow> Inl e
      | Inr filename \<Rightarrow>
     (case (if i + 1 < length parts
            then (case getitem parts (i + 1) of Inl e \<Rightarrow> Inl e | Inr body \<Rightarrow> strip_of body)
            else Inr [])
      of
        Inl e \<Rightarrow> Inl e
      | Inr file_content \<Rightarrow>
          let file_content1 = re_sub fence_open_re [] file_content;
              file_content2 = re_sub fence_close_re [] (py_rstrip file_content1)
          in Inr (if filename \<noteq> [] \<and> file_content2 \<noteq> []
                  then dict_set filename (py_strip file_content2) files
                  else files))))"

fun section_loop :: "string option list \<Rightarrow> nat list \<Rightarrow> pydict \<Rightarrow> error + pydict" where
  "section_loop parts [] files = Inr files"
| "section_loop parts (i # rng) files =
     (case section_step parts i files of
        Inl e \<Rightarrow> Inl e
      | Inr files' \<Rightarrow> section_loop parts rng files')"

text \<open>
  The primary format, lines 81 to 94: split on the markers and, when there is more than
  one part, run the loop over the odd indices.
\<close>

definition delimited_sections :: "string \<Rightarrow> pydict \<Rightarrow> error + pydict" where
  "delimited_sections content files =
     (let parts = re_split marker_re content
      in if length parts > 1
         then section_loop parts (py_range 1 (length parts) 2) files
         else Inr files)"

text \<open>
  The loop of the two other formats, lines 103 and 104 (and 112 and 113):
  \<^verbatim>\<open>
    for m in pattern.finditer(content):
        files[m.group(1).strip()] = m.group(2).strip()
  \<close>
\<close>

fun block_loop :: "rmatch list \<Rightarrow> pydict \<Rightarrow> error + pydict" where
  "block_loop [] files = Inr files"
| "block_loop (m # ms) files =
     (case strip_of (m_group m 2) of
        Inl e \<Rightarrow> Inl e
      | Inr body \<Rightarrow>
     (case strip_of (m_group m 1) of
        Inl e \<Rightarrow> Inl e
      | Inr filename \<Rightarrow> block_loop ms (dict_set filename body files)))"

definition heading_blocks :: "string \<Rightarrow> pydict \<Rightarrow> error + pydict" where
  "heading_blocks content files = block_loop (finditer heading_re content) files"

definition bold_blocks :: "string \<Rightarrow> pydict \<Rightarrow> error + pydict" where
  "bold_blocks content files = block_loop (finditer bold_re content) files"

text \<open>
  The line of the warning. Its dash is the code point 8212, beyond the code points of the
  model; it stands here as the three bytes of its UTF-8 form.
\<close>

definition fallback_warning :: string where
  "fallback_warning =
     ''WARNING: Could not parse named file sections '' @ [CHR 0xE2, CHR 0x80, CHR 0x94]
       @ '' saving full response as index.html''"

text \<open>
  \<^verbatim>\<open>parse_response\<close>: the dictionary starts empty; each later format and the last resort
  run only \<^verbatim>\<open>if not files\<close>. The result is the dictionary and what was printed.
\<close>

definition parse_response :: "string \<Rightarrow> error + (pydict \<times> console)" where
  "parse_response content =
     (case delimited_sections content [] of
        Inl e \<Rightarrow> Inl e
      | Inr files1 \<Rightarrow>
     (case (if files1 = [] then heading_blocks content files1 else Inr files1) of
        Inl e \<Rightarrow> Inl e
      | Inr files2 \<Rightarrow>
     (case (if files2 = [] then bold_blocks content files2 else Inr files2) of
        Inl e \<Rightarrow> Inl e
      | Inr files3 \<Rightarrow>
          if files3 = []
          then Inr (dict_set ''index.html'' content files3, [(Stderr, fallback_warning)])
          else Inr (files3, []))))"

section \<open>Paths\<close>

text \<open>
  The program runs on a POSIX system, where \<^verbatim>\<open>os.path\<close> is \<^verbatim>\<open>posixpath\<close>. The functions
  below follow its source: \<^verbatim>\<open>str.split\<close> and \<^verbatim>\<open>str.join\<close> on the separator,
  \<^verbatim>\<open>normpath\<close> and \<^verbatim>\<open>dirname\<close>.
\<close>

fun split_on :: "char \<Rightarrow> string \<Rightarrow> string list" where
  "split_on sep [] = [[]]"
| "split_on sep (c # cs) =
     (if c = sep then [] # split_on sep cs
      else case split_on sep cs of
             [] \<Rightarrow> [[c]]
           | w # ws \<Rightarrow> (c # w) # ws)"

fun join_with :: "string \<Rightarrow> string list \<Rightarrow> string" where
  "join_with sep [] = []"
| "join_with sep [w] = w"
| "join_with sep (w # v # ws) = w @ sep @ join_with sep (v # ws)"

text \<open>
  The body of the loop of \<^verbatim>\<open>normpath\<close> over the components:
  \<^verbatim>\<open>
    if comp in (empty, dot): continue
    if (comp != dotdot or (not initial_slashes and not new_comps) or
         (new_comps and new_comps[-1] == dotdot)):
        new_comps.append(comp)
    elif new_comps:
        new_comps.pop()
  \<close>
\<close>

definition norm_step :: "nat \<Rightarrow> string list \<Rightarrow> string \<Rightarrow> string list" where
  "norm_step initial_slashes new_comps part =
     (if part = [] \<or> part = ''.'' then new_comps
      else if part \<noteq> ''..'' \<or> (initial_slashes = 0 \<and> new_comps = [])
              \<or> (new_comps \<noteq> [] \<and> last new_comps = ''..'')
      then new_comps @ [part]
      else if new_comps \<noteq> [] then butlast new_comps
      else new_comps)"

definition normpath :: "string \<Rightarrow> string" where
  "normpath path =
     (if path = [] then ''.''
      else
        let initial_slashes =
              (if prefix ''/'' path
               then (if prefix ''//'' path \<and> \<not> prefix ''///'' path then 2 else 1)
               else 0 :: nat);
            comps = split_on (CHR ''/'') path;
            new_comps = foldl (norm_step initial_slashes) [] comps;
            joined = replicate initial_slashes (CHR ''/'') @ join_with ''/'' new_comps
        in if joined = [] then ''.'' else joined)"

text \<open>
  \<^verbatim>\<open>dirname\<close>: the text up to and with the last separator, without its trailing
  separators unless it consists of separators only.
\<close>

definition dirname :: "string \<Rightarrow> string" where
  "dirname p =
     (let head = rev (dropWhile (\<lambda>c. c \<noteq> CHR ''/'') (rev p))
      in if head \<noteq> [] \<and> head \<noteq> replicate (length head) (CHR ''/'')
         then rev (dropWhile (\<lambda>c. c = CHR ''/'') (rev head))
         else head)"

section \<open>The file system and write\_files\<close>

text \<open>
  The file system is what the program can change in it: the content of the file at each
  path it opens, and the directories it creates. A path is the string handed to
  \<^verbatim>\<open>open\<close>; a relative one is resolved by the operating system against the current
  directory, the destination root.
\<close>

record filesystem =
  stored :: "string \<rightharpoonup> string"
  dirs :: "string set"

text \<open>
  Whether a call of the operating system fails is not decided by the program. The
  environment says it: for which directories \<^verbatim>\<open>os.makedirs\<close> raises, for which paths
  \<^verbatim>\<open>open(path, "w")\<close> raises, and for which path and content \<^verbatim>\<open>f.write\<close> raises. An
  environment is fixed: what fails depends on the path and the content, not on what the
  program has written before.
\<close>

record environment =
  makedirs_fails :: "string \<Rightarrow> bool"
  open_fails :: "string \<Rightarrow> bool"
  write_fails :: "string \<Rightarrow> string \<Rightarrow> bool"

text \<open>
  \<^verbatim>\<open>os.makedirs(parent, exist_ok=True)\<close> creates the directory and those above it that
  are missing; the ones that exist stay. A call that fails is taken to create nothing.
\<close>

definition dir_chain :: "string \<Rightarrow> string list" where
  "dir_chain parent =
     (let lead = takeWhile (\<lambda>c. c = CHR ''/'') parent;
          comps = filter (\<lambda>w. w \<noteq> []) (split_on (CHR ''/'') parent)
      in map (\<lambda>k. lead @ join_with ''/'' (take k comps)) [1 ..< Suc (length comps)])"

definition makedirs :: "environment \<Rightarrow> string \<Rightarrow> filesystem \<Rightarrow> error + filesystem" where
  "makedirs env parent fs =
     (if makedirs_fails env parent then Inl (OSError parent)
      else Inr (fs\<lparr>dirs := dirs fs \<union> set (dir_chain parent)\<rparr>))"

text \<open>
  \<^verbatim>\<open>with open(clean, "w", encoding="utf-8") as f: f.write(content)\<close>. Opening for
  writing creates the file or empties it; the write then stores the content. The first
  component of the result is the exception, if one was raised.
\<close>

definition open_write ::
  "environment \<Rightarrow> string \<Rightarrow> string \<Rightarrow> filesystem \<Rightarrow> error option \<times> filesystem" where
  "open_write env clean content fs =
     (if open_fails env clean then (Some (OSError clean), fs)
      else if write_fails env clean content
      then (Some (OSError clean), fs\<lparr>stored := (stored fs)(clean \<mapsto> [])\<rparr>)
      else (None, fs\<lparr>stored := (stored fs)(clean \<mapsto> content)\<rparr>))"

text \<open>The format \<^verbatim>\<open>{n:,}\<close>: decimal digits in groups of three.\<close>

function digits_rev :: "nat \<Rightarrow> string" where
  "digits_rev n = char_of (48 + n mod 10) # (if n < 10 then [] else digits_rev (n div 10))"
  by pat_completeness auto
termination
  by (relation "measure id") auto

declare digits_rev.simps [simp del]

fun group3 :: "string \<Rightarrow> string" where
  "group3 (a # b # c # d # ds) = a # b # c # CHR '','' # group3 (d # ds)"
| "group3 ds = ds"

definition fmt_commas :: "nat \<Rightarrow> string" where
  "fmt_commas n = rev (group3 (digits_rev n))"

definition skip_line :: "string \<Rightarrow> string" where
  "skip_line filename = ''SKIP: unsafe path '' @ [CHR 0x27] @ filename @ [CHR 0x27]"

definition written_line :: "string \<Rightarrow> string \<Rightarrow> string" where
  "written_line clean content =
     ''  Written: '' @ clean @ ''  ('' @ fmt_commas (length content) @ '' chars)''"

text \<open>
  The state of the loop of \<^verbatim>\<open>write_files\<close>: the list \<^verbatim>\<open>written\<close>, what was printed, and
  the file system.
\<close>

record wstate =
  written :: "string list"
  printed :: console
  fsys :: filesystem

text \<open>
  The body of the loop, lines 131 to 146. \<open>Inl\<close> is an exception that leaves the loop
  and the function, with the state it leaves behind.
\<close>

definition write_one ::
  "environment \<Rightarrow> string \<times> string \<Rightarrow> wstate \<Rightarrow> (error \<times> wstate) + wstate" where
  "write_one env item st =
     (let filename = fst item; content = snd item;
          clean = normpath filename
      in if prefix ''..'' clean
         then Inr (st\<lparr>printed := printed st @ [(Stderr, skip_line filename)]\<rparr>)
         else
           let parent = dirname clean
           in case (if parent \<noteq> [] then makedirs env parent (fsys st) else Inr (fsys st)) of
                Inl e \<Rightarrow> Inl (e, st)
              | Inr fs1 \<Rightarrow>
                  (case open_write env clean content fs1 of
                     (Some e, fs2) \<Rightarrow> Inl (e, st\<lparr>fsys := fs2\<rparr>)
                   | (None, fs2) \<Rightarrow>
                       Inr (st\<lparr>written := written st @ [clean],
                               printed := printed st @ [(Stdout, written_line clean content)],
                               fsys := fs2\<rparr>)))"

fun write_loop ::
  "environment \<Rightarrow> pydict \<Rightarrow> wstate \<Rightarrow> (error \<times> wstate) + wstate" where
  "write_loop env [] st = Inr st"
| "write_loop env (item # items) st =
     (case write_one env item st of
        Inl failed \<Rightarrow> Inl failed
      | Inr st' \<Rightarrow> write_loop env items st')"

text \<open>
  \<^verbatim>\<open>write_files\<close>: the list of the written paths, or the exception; with it what was
  printed and the file system after the call.
\<close>

definition write_files ::
  "environment \<Rightarrow> pydict \<Rightarrow> filesystem \<Rightarrow> (error + string list) \<times> console \<times> filesystem" where
  "write_files env files fs =
     (case write_loop env files \<lparr>written = [], printed = [], fsys = fs\<rparr> of
        Inl (e, st) \<Rightarrow> (Inl e, printed st, fsys st)
      | Inr st \<Rightarrow> (Inr (written st), printed st, fsys st))"

text \<open>
  Environments and a file system for the examples: no call fails; \<^verbatim>\<open>open\<close> fails for one
  path; no file and no directory yet.
\<close>

definition no_failures :: environment where
  "no_failures =
     \<lparr>makedirs_fails = (\<lambda>parent. False), open_fails = (\<lambda>path. False),
      write_fails = (\<lambda>path content. False)\<rparr>"

definition open_denied :: "string \<Rightarrow> environment" where
  "open_denied path = no_failures\<lparr>open_fails := (\<lambda>p. p = path)\<rparr>"

definition empty_fs :: filesystem where
  "empty_fs = \<lparr>stored = Map.empty, dirs = {}\<rparr>"

section \<open>The patterns without regular expressions\<close>

text \<open>
  The definitions of this section are not part of the program. They say, in terms of
  lists, what the lemmas below prove the patterns to do, and they name what the proofs
  about \<^verbatim>\<open>write_files\<close> need.

  A group is closed at the top level of a pattern.
\<close>

fun closes :: "nat \<Rightarrow> atom list \<Rightarrow> bool" where
  "closes n [] = False"
| "closes n (GClose k # p) = (k = n \<or> closes n p)"
| "closes n (a # p) = closes n p"

text \<open>A lower bound on the number of characters a match of a pattern takes.\<close>

fun min_len :: "atom \<Rightarrow> nat" where
  "min_len (Lit l) = length l"
| "min_len (Rep m lo hi cls) = lo"
| "min_len (Alt a b) = min (sum_list (map min_len a)) (sum_list (map min_len b))"
| "min_len _ = 0"

text \<open>
  What the lazy part of the marker pattern does, written as a scan of the text: stop as
  soon as whitespace and three equals signs follow, else take one more character that is
  neither an equals sign nor a newline. The result is the text taken, the whitespace and
  the text after the marker.
\<close>

fun lazy_scan :: "string \<Rightarrow> (string \<times> string \<times> string) option" where
  "lazy_scan u =
     (if prefix ''==='' (dropWhile is_space u)
      then Some ([], takeWhile is_space u, drop 3 (dropWhile is_space u))
      else case u of
             [] \<Rightarrow> None
           | d # u' \<Rightarrow>
               if d \<noteq> CHR ''='' \<and> d \<noteq> CHR 0x0A
               then map_option (\<lambda>(mid, ws, t). (d # mid, ws, t)) (lazy_scan u')
               else None)"

declare lazy_scan.simps [simp del]

text \<open>
  The whole pattern as a scan: three equals signs, the whitespace after them, a first
  character that is neither whitespace nor an equals sign, and the lazy part.
\<close>

definition marker_scan :: "string \<Rightarrow> (string \<times> string \<times> string \<times> string) option" where
  "marker_scan s =
     (if prefix ''==='' s
      then case dropWhile is_space (drop 3 s) of
             [] \<Rightarrow> None
           | c # s3 \<Rightarrow>
               if \<not> is_space c \<and> c \<noteq> CHR ''=''
               then map_option
                      (\<lambda>(mid, ws2, t). (takeWhile is_space (drop 3 s), c # mid, ws2, t))
                      (lazy_scan s3)
               else None
      else None)"

text \<open>
  The name of a marker, in the words of the amended claim C4: it starts with a character
  that is neither whitespace nor an equals sign, it goes on with characters other than the
  equals sign and the newline, and it does not end with whitespace.
\<close>

definition marker_name :: "string \<Rightarrow> bool" where
  "marker_name name \<longleftrightarrow>
     name \<noteq> [] \<and> \<not> is_space (hd name) \<and> hd name \<noteq> CHR ''='' \<and> \<not> is_space (last name)
     \<and> (\<forall>c \<in> set (tl name). c \<noteq> CHR ''='' \<and> c \<noteq> CHR 0x0A)"

text \<open>
  What the two substitutions of the primary format remove: at the start of the text, a
  fence of three backquotes with the letters after it and the newline after them, if
  there is one; at the end of a text without trailing whitespace, a fence of three
  backquotes with the newline before it, if there is one.
\<close>

definition strip_opener :: "string \<Rightarrow> string" where
  "strip_opener s =
     (if prefix ''```'' s
      then case dropWhile is_alpha (drop 3 s) of
             [] \<Rightarrow> []
           | c # t \<Rightarrow> if c = CHR 0x0A then t else c # t
      else s)"

definition strip_closer :: "string \<Rightarrow> string" where
  "strip_closer s =
     (if suffix (CHR 0x0A # ''```'') s then take (length s - 4) s
      else if suffix ''```'' s then take (length s - 3) s
      else s)"

text \<open>
  The text from a position on is a closing fence for the pattern: an optional newline,
  the fence, and whitespace up to the end.
\<close>

definition closer :: "string \<Rightarrow> bool" where
  "closer u \<longleftrightarrow>
     (\<exists>w. list_all is_space w \<and> (u = CHR 0x0A # ''```'' @ w \<or> u = ''```'' @ w))"

text \<open>
  The state a call of the loop leaves behind, whether it ended by an exception or not.
\<close>

definition final_state :: "(error \<times> wstate) + wstate \<Rightarrow> wstate" where
  "final_state r = (case r of Inl (e, st) \<Rightarrow> st | Inr st \<Rightarrow> st)"



section \<open>Every group of the patterns takes part in every match\<close>

text \<open>
  A group that is closed at the top level of a pattern is set in every match of the
  pattern. The groups of the three patterns of \<^verbatim>\<open>parse_response\<close> are of this kind, so
  neither \<^verbatim>\<open>parts[i]\<close> nor \<^verbatim>\<open>m.group(n)\<close> is ever \<^verbatim>\<open>None\<close>.
\<close>

lemma closes_append: "closes n p \<Longrightarrow> closes n (a @ p)"
  by (induction n a rule: closes.induct) auto

lemma mt_keeps_group:
  "mt p st = Some r \<Longrightarrow> grp st n \<noteq> None \<Longrightarrow> grp r n \<noteq> None"
proof (induction p st arbitrary: r rule: mt.induct)
  case (1 st)
  then show ?case by (simp add: mt.simps)
next
  case (2 l p st)
  then show ?case by (simp add: mt.simps split: if_splits)
next
  case (3 m lo hi cls p st)
  from mt_Rep_cases[OF "3.prems"(1)] show ?case
  proof (elim disjE conjE exE)
    assume "lo = 0" "mt p st = Some r"
    then show ?thesis using "3.IH"(2)[OF refl] "3.prems"(2) by blast
  next
    fix c cs
    assume a: "rest st = c # cs" "cls c" "hi \<noteq> Some 0"
      "mt (Rep m (lo - 1) (map_option (\<lambda>h. h - 1) hi) cls # p)
          (st\<lparr>seen := seen st @ [c], rest := cs\<rparr>) = Some r"
    from "3.IH"(1)[OF a(1) _ a(4)] a(2,3) "3.prems"(2) show ?thesis by simp
  qed
next
  case (4 a b p st)
  then show ?case by (simp add: mt.simps split: option.splits)
next
  case (5 n p st)
  then show ?case by (simp add: mt.simps)
next
  case (6 k p st)
  then show ?case by (simp add: mt.simps)
next
  case (7 p st)
  then show ?case by (simp add: mt.simps split: if_splits)
next
  case (8 p st)
  then show ?case by (simp add: mt.simps split: if_splits)
qed

lemma mt_sets_group:
  "mt p st = Some r \<Longrightarrow> closes n p \<Longrightarrow> grp r n \<noteq> None"
proof (induction p st arbitrary: r rule: mt.induct)
  case (1 st)
  then show ?case by simp
next
  case (2 l p st)
  then show ?case by (simp add: mt.simps split: if_splits)
next
  case (3 m lo hi cls p st)
  from mt_Rep_cases[OF "3.prems"(1)] show ?case
  proof (elim disjE conjE exE)
    assume "lo = 0" "mt p st = Some r"
    then show ?thesis using "3.IH"(2)[OF refl] "3.prems"(2) by simp
  next
    fix c cs
    assume a: "rest st = c # cs" "cls c" "hi \<noteq> Some 0"
      "mt (Rep m (lo - 1) (map_option (\<lambda>h. h - 1) hi) cls # p)
          (st\<lparr>seen := seen st @ [c], rest := cs\<rparr>) = Some r"
    from "3.IH"(1)[OF a(1) _ a(4)] a(2,3) "3.prems"(2) show ?thesis by simp
  qed
next
  case (4 a b p st)
  from "4.prems"(2) have "closes n (a @ p)" "closes n (b @ p)"
    by (simp_all add: closes_append)
  with 4 show ?case by (simp add: mt.simps split: option.splits)
next
  case (5 k p st)
  then show ?case by (simp add: mt.simps)
next
  case (6 k p st)
  from "6.prems"(1) have run:
    "mt p (st\<lparr>grp := (grp st)(k \<mapsto> (case opened st k of
                                         Some i \<Rightarrow> drop i (seen st)
                                       | None \<Rightarrow> []))\<rparr>) = Some r"
    by (simp add: mt.simps)
  show ?case
  proof (cases "k = n")
    case True
    from mt_keeps_group[OF run, of n] True show ?thesis by simp
  next
    case False
    with "6.prems"(2) have "closes n p" by simp
    from "6.IH"[OF run this] show ?thesis .
  qed
next
  case (7 p st)
  then show ?case by (simp add: mt.simps split: if_splits)
next
  case (8 p st)
  then show ?case by (simp add: mt.simps split: if_splits)
qed

lemma search_sets_group:
  "search p bef s = Some m \<Longrightarrow> closes n p \<Longrightarrow> m_group m n \<noteq> None"
proof (induction s arbitrary: bef)
  case Nil
  then show ?case by (auto simp: mk_match_def dest: mt_sets_group)
next
  case (Cons c cs)
  then show ?case by (auto simp: mk_match_def split: option.splits dest: mt_sets_group)
qed

lemma finditer_from_sets_group:
  "closes n p \<Longrightarrow> m \<in> set (finditer_from p s pos) \<Longrightarrow> m_group m n \<noteq> None"
proof (induction p s pos rule: finditer_from.induct)
  case (1 p s pos)
  show ?case
  proof (cases "length s < pos")
    case True
    with "1.prems" show ?thesis by (simp add: finditer_from.simps)
  next
    case False
    show ?thesis
    proof (cases "search p (take pos s) (drop pos s)")
      case None
      with False "1.prems" show ?thesis by (simp add: finditer_from.simps)
    next
      case (Some m')
      with False "1.prems"(2) have
        "m = m' \<or> m \<in> set (finditer_from p s (if m_start m' < m_end m' then m_end m' else Suc (m_end m')))"
        by (subst (asm) finditer_from.simps) simp
      then show ?thesis
      proof
        assume "m = m'"
        with search_sets_group[OF Some "1.prems"(1)] show ?thesis by simp
      next
        assume "m \<in> set (finditer_from p s (if m_start m' < m_end m' then m_end m' else Suc (m_end m')))"
        from "1.IH"[OF False Some "1.prems"(1) this] show ?thesis .
      qed
    qed
  qed
qed

lemma split_parts_all_some:
  "\<forall>m \<in> set ms. m_group m 1 \<noteq> None \<Longrightarrow> None \<notin> set (split_parts s k0 ms)"
  by (induction ms arbitrary: k0) (auto simp del: One_nat_def)

lemma closes_marker: "closes 1 marker_re"
  by (simp add: marker_re_def)

lemma closes_heading: "closes 1 heading_re" "closes 2 heading_re"
  by (simp_all add: heading_re_def)

lemma closes_bold: "closes 1 bold_re" "closes 2 bold_re"
  by (simp_all add: bold_re_def)

lemma re_split_marker_all_some: "None \<notin> set (re_split marker_re s)"
  unfolding re_split_def finditer_def
  using finditer_from_sets_group[OF closes_marker]
  by (intro split_parts_all_some) blast

lemma section_step_ok:
  assumes "None \<notin> set parts" "i < length parts"
  shows "\<exists>fls'. section_step parts i fls = Inr fls'"
proof -
  from assms obtain name where name: "parts ! i = Some name"
    by (metis nth_mem not_None_eq)
  show ?thesis
  proof (cases "i + 1 < length parts")
    case True
    with assms(1) obtain body where "parts ! (i + 1) = Some body"
      by (metis nth_mem not_None_eq)
    with True name assms(2) show ?thesis
      by (simp add: section_step_def getitem_def strip_of_def Let_def)
  next
    case False
    with name assms(2) show ?thesis
      by (simp add: section_step_def getitem_def strip_of_def Let_def)
  qed
qed

lemma section_loop_ok:
  assumes "None \<notin> set parts" "\<forall>i \<in> set rng. i < length parts"
  shows "\<exists>fls'. section_loop parts rng fls = Inr fls'"
  using assms(2)
proof (induction rng arbitrary: fls)
  case Nil
  then show ?case by simp
next
  case (Cons i rng)
  from section_step_ok[OF assms(1), of i fls] Cons.prems obtain f1 where
    "section_step parts i fls = Inr f1" by auto
  with Cons.IH[of f1] Cons.prems show ?case by simp
qed

lemma py_range_odd_bound: "i \<in> set (py_range 1 n 2) \<Longrightarrow> i < n"
  by (auto simp: py_range_def)

lemma delimited_sections_ok: "\<exists>fls'. delimited_sections content fls = Inr fls'"
proof -
  let ?parts = "re_split marker_re content"
  have "\<forall>i \<in> set (py_range 1 (length ?parts) 2). i < length ?parts"
    by (blast dest: py_range_odd_bound)
  from section_loop_ok[OF re_split_marker_all_some this]
  show ?thesis by (simp add: delimited_sections_def Let_def del: One_nat_def)
qed

lemma block_loop_ok:
  assumes "\<forall>m \<in> set ms. m_group m 1 \<noteq> None \<and> m_group m 2 \<noteq> None"
  shows "\<exists>fls'. block_loop ms fls = Inr fls'"
  using assms
proof (induction ms arbitrary: fls)
  case Nil
  then show ?case by simp
next
  case (Cons m ms)
  then obtain g1 g2 where "m_group m 1 = Some g1" "m_group m 2 = Some g2" by auto
  with Cons show ?case by (simp add: strip_of_def)
qed

lemma heading_blocks_ok: "\<exists>fls'. heading_blocks content fls = Inr fls'"
proof -
  have "\<forall>m \<in> set (finditer heading_re content). m_group m 1 \<noteq> None \<and> m_group m 2 \<noteq> None"
    unfolding finditer_def
    using finditer_from_sets_group[OF closes_heading(1)]
          finditer_from_sets_group[OF closes_heading(2)] by blast
  from block_loop_ok[OF this] show ?thesis by (simp add: heading_blocks_def)
qed

lemma bold_blocks_ok: "\<exists>fls'. bold_blocks content fls = Inr fls'"
proof -
  have "\<forall>m \<in> set (finditer bold_re content). m_group m 1 \<noteq> None \<and> m_group m 2 \<noteq> None"
    unfolding finditer_def
    using finditer_from_sets_group[OF closes_bold(1)]
          finditer_from_sets_group[OF closes_bold(2)] by blast
  from block_loop_ok[OF this] show ?thesis by (simp add: bold_blocks_def)
qed

section \<open>The scan for the leftmost match\<close>

lemma search_finds:
  "search p bef s = Some m \<Longrightarrow>
     \<exists>pre u r. s = pre @ u \<and> mt p (start_at (bef @ pre) u) = Some r \<and> m = mk_match (bef @ pre) r"
proof (induction s arbitrary: bef)
  case Nil
  then show ?case by auto
next
  case (Cons c cs)
  show ?case
  proof (cases "mt p (start_at bef (c # cs))")
    case (Some r)
    with Cons.prems have "m = mk_match bef r" by simp
    with Some show ?thesis by (metis append_Nil append_Nil2)
  next
    case None
    with Cons.prems have "search p (bef @ [c]) cs = Some m" by simp
    from Cons.IH[OF this] obtain pre u r where
      "cs = pre @ u" "mt p (start_at ((bef @ [c]) @ pre) u) = Some r"
      "m = mk_match ((bef @ [c]) @ pre) r" by blast
    then have "c # cs = (c # pre) @ u" "mt p (start_at (bef @ c # pre) u) = Some r"
      "m = mk_match (bef @ c # pre) r" by simp_all
    then show ?thesis by blast
  qed
qed

lemma search_misses:
  "search p bef s = None \<Longrightarrow> s = pre @ u \<Longrightarrow> mt p (start_at (bef @ pre) u) = None"
proof (induction s arbitrary: bef pre)
  case Nil
  then show ?case by simp
next
  case (Cons c cs)
  from Cons.prems(1) have here: "mt p (start_at bef (c # cs)) = None"
    and later: "search p (bef @ [c]) cs = None"
    by (simp_all split: option.splits)
  show ?case
  proof (cases pre)
    case Nil
    with Cons.prems(2) here show ?thesis by simp
  next
    case (Cons d pre')
    with Cons.prems(2) have "cs = pre' @ u" "d = c" by simp_all
    with Cons.IH[OF later, of pre'] Cons show ?thesis by simp
  qed
qed

lemma re_split_parts:
  "1 < length (re_split p s) \<longleftrightarrow> search p [] s \<noteq> None"
proof (cases "search p [] s")
  case None
  then have "finditer_from p s 0 = []" by (subst finditer_from.simps) simp
  with None show ?thesis by (simp add: re_split_def finditer_def)
next
  case (Some m)
  have "finditer_from p s 0
        = m # finditer_from p s (if m_start m < m_end m then m_end m else Suc (m_end m))"
    by (subst finditer_from.simps) (simp add: Some)
  with Some show ?thesis by (simp add: re_split_def finditer_def)
qed

lemma search_leftmost:
  assumes "mt p (start_at (bef @ pre) u) = Some r"
    and "\<And>pre1 pre2. pre = pre1 @ pre2 \<Longrightarrow> pre2 \<noteq> [] \<Longrightarrow>
            mt p (start_at (bef @ pre1) (pre2 @ u)) = None"
  shows "search p bef (pre @ u) = Some (mk_match (bef @ pre) r)"
  using assms
proof (induction pre arbitrary: bef)
  case Nil
  then show ?case by (cases u) simp_all
next
  case (Cons c pre)
  from Cons.prems(2)[of "[]" "c # pre"]
  have here: "mt p (start_at bef (c # pre @ u)) = None" by simp
  have "search p (bef @ [c]) (pre @ u) = Some (mk_match ((bef @ [c]) @ pre) r)"
  proof (rule Cons.IH)
    show "mt p (start_at ((bef @ [c]) @ pre) u) = Some r" using Cons.prems(1) by simp
  next
    fix pre1 pre2
    assume "pre = pre1 @ pre2" "pre2 \<noteq> []"
    with Cons.prems(2)[of "c # pre1" pre2]
    show "mt p (start_at ((bef @ [c]) @ pre1) (pre2 @ u)) = None" by simp
  qed
  with here show ?case by simp
qed

lemma search_nowhere:
  assumes "\<And>pre u. s = pre @ u \<Longrightarrow> mt p (start_at (bef @ pre) u) = None"
  shows "search p bef s = None"
  using assms
proof (induction s arbitrary: bef)
  case Nil
  from Nil[of "[]" "[]"] show ?case by simp
next
  case (Cons c cs)
  from Cons.prems[of "[]" "c # cs"] have here: "mt p (start_at bef (c # cs)) = None" by simp
  have "search p (bef @ [c]) cs = None"
  proof (rule Cons.IH)
    fix pre u
    assume "cs = pre @ u"
    with Cons.prems[of "c # pre" u] show "mt p (start_at ((bef @ [c]) @ pre) u) = None" by simp
  qed
  with here show ?case by simp
qed

text \<open>
  The lower bound on the length of a match is positive for the five patterns, so every
  match \<^verbatim>\<open>finditer\<close> finds for them is non-empty, and the scan always goes on where the
  match ended.
\<close>

lemma mt_min_len:
  "mt p st = Some r \<Longrightarrow> length (seen st) + sum_list (map min_len p) \<le> length (seen r)"
proof (induction p st arbitrary: r rule: mt.induct)
  case (1 st)
  then show ?case by (simp add: mt.simps)
next
  case (2 l p st)
  from "2.prems" have pre: "prefix l (rest st)"
    and run: "mt p (st\<lparr>seen := seen st @ l, rest := drop (length l) (rest st)\<rparr>) = Some r"
    by (simp_all add: mt.simps split: if_splits)
  from "2.IH"[OF pre run] show ?case by simp
next
  case (3 m lo hi cls p st)
  from mt_Rep_cases[OF "3.prems"] show ?case
  proof (elim disjE conjE exE)
    assume "lo = 0" "mt p st = Some r"
    then show ?thesis using "3.IH"(2)[OF refl] by simp
  next
    fix c cs
    assume a: "rest st = c # cs" "cls c" "hi \<noteq> Some 0"
      "mt (Rep m (lo - 1) (map_option (\<lambda>h. h - 1) hi) cls # p)
          (st\<lparr>seen := seen st @ [c], rest := cs\<rparr>) = Some r"
    from "3.IH"(1)[OF a(1) _ a(4)] a(2,3) show ?thesis by simp
  qed
next
  case (4 a b p st)
  show ?case
  proof (cases "mt (a @ p) st")
    case None
    with "4.prems" have "mt (b @ p) st = Some r" by (simp add: mt.simps)
    from "4.IH"(2)[OF None this] show ?thesis by simp
  next
    case (Some r')
    with "4.prems" have "mt (a @ p) st = Some r" by (simp add: mt.simps)
    from "4.IH"(1)[OF this] show ?thesis by simp
  qed
next
  case (5 n p st)
  then show ?case by (simp add: mt.simps)
next
  case (6 n p st)
  then show ?case by (simp add: mt.simps)
next
  case (7 p st)
  then show ?case by (simp add: mt.simps split: if_splits)
next
  case (8 p st)
  then show ?case by (simp add: mt.simps split: if_splits)
qed

lemma search_not_empty:
  assumes "0 < sum_list (map min_len p)" "search p bef s = Some m"
  shows "m_start m < m_end m"
proof -
  from search_finds[OF assms(2)] obtain pre u r where
    "mt p (start_at (bef @ pre) u) = Some r" "m = mk_match (bef @ pre) r" by blast
  with mt_min_len[of p "start_at (bef @ pre) u" r] assms(1) show ?thesis
    by (simp add: start_at_def mk_match_def)
qed

lemma patterns_not_empty:
  "0 < sum_list (map min_len marker_re)" "0 < sum_list (map min_len fence_open_re)"
  "0 < sum_list (map min_len fence_close_re)" "0 < sum_list (map min_len heading_re)"
  "0 < sum_list (map min_len bold_re)"
  by (simp_all add: marker_re_def fence_open_re_def fence_close_re_def heading_re_def bold_re_def)

section \<open>The shape of a marker\<close>

text \<open>
  The matcher on the marker pattern, step by step: a greedy run followed by something
  that cannot start with a character of the run takes the whole run; a single character
  of a class; and the lazy part with what follows it.
\<close>

lemma mt_Rep_greedy_star:
  assumes fail: "\<And>st'. rest st' \<noteq> [] \<Longrightarrow> cls (hd (rest st')) \<Longrightarrow> mt p st' = None"
  shows "mt (Rep Greedy 0 None cls # p) \<lparr>seen = b, rest = u, opened = ops, grp = g\<rparr>
         = mt p \<lparr>seen = b @ takeWhile cls u, rest = dropWhile cls u, opened = ops, grp = g\<rparr>"
proof (induction u arbitrary: b)
  case Nil
  show ?case by (subst mt.simps) simp
next
  case (Cons c cs)
  show ?case
  proof (cases "cls c")
    case True
    have stop: "mt p \<lparr>seen = b, rest = c # cs, opened = ops, grp = g\<rparr> = None"
      by (rule fail) (simp_all add: True)
    have "mt (Rep Greedy 0 None cls # p) \<lparr>seen = b, rest = c # cs, opened = ops, grp = g\<rparr>
          = mt (Rep Greedy 0 None cls # p) \<lparr>seen = b @ [c], rest = cs, opened = ops, grp = g\<rparr>"
      by (subst mt.simps) (simp add: True stop split: option.splits)
    also have "\<dots> = mt p \<lparr>seen = (b @ [c]) @ takeWhile cls cs, rest = dropWhile cls cs,
                            opened = ops, grp = g\<rparr>"
      by (rule Cons.IH)
    finally show ?thesis by (simp add: True)
  next
    case False
    then show ?thesis by (subst mt.simps) simp
  qed
qed

lemma mt_Rep_one:
  "mt (Rep Greedy 1 (Some 1) cls # p) \<lparr>seen = b, rest = u, opened = ops, grp = g\<rparr>
   = (case u of
        [] \<Rightarrow> None
      | c # cs \<Rightarrow> if cls c then mt p \<lparr>seen = b @ [c], rest = cs, opened = ops, grp = g\<rparr>
                 else None)"
proof -
  have zero: "mt (Rep Greedy 0 (Some 0) cls # p) st = mt p st" for st
    by (subst mt.simps) (simp split: list.splits)
  show ?thesis
    by (subst mt.simps) (simp add: zero split: list.splits option.splits)
qed

lemma mt_Lit_end:
  "mt [Lit l] \<lparr>seen = b, rest = u, opened = ops, grp = g\<rparr>
   = (if prefix l u then Some \<lparr>seen = b @ l, rest = drop (length l) u, opened = ops, grp = g\<rparr>
      else None)"
  by (simp add: mt.simps)

lemma mt_space_then_bars:
  "mt [Rep Greedy 0 None is_space, Lit ''===''] \<lparr>seen = b, rest = u, opened = ops, grp = g\<rparr>
   = (if prefix ''==='' (dropWhile is_space u)
      then Some \<lparr>seen = b @ takeWhile is_space u @ ''==='', rest = drop 3 (dropWhile is_space u),
                 opened = ops, grp = g\<rparr>
      else None)"
proof -
  have fail: "mt [Lit ''===''] st' = None" if "rest st' \<noteq> []" "is_space (hd (rest st'))" for st'
  proof -
    from that obtain c cs where r: "rest st' = c # cs" "is_space c" by (cases "rest st'") auto
    then have "c \<noteq> CHR ''=''" by (auto simp: is_space_def)
    with r show ?thesis by (simp add: mt.simps)
  qed
  show ?thesis
    by (simp add: mt_Rep_greedy_star[OF fail] mt_Lit_end numeral_3_eq_3)
qed

lemma mt_lazy_name:
  "mt [Rep Lazy 0 None (\<lambda>c. c \<noteq> CHR ''='' \<and> c \<noteq> CHR 0x0A), GClose n,
       Rep Greedy 0 None is_space, Lit ''===''] \<lparr>seen = b, rest = u, opened = ops, grp = g\<rparr>
   = map_option
       (\<lambda>(mid, ws, t).
          \<lparr>seen = b @ mid @ ws @ ''==='', rest = t, opened = ops,
           grp = g(n \<mapsto> (case ops n of Some i \<Rightarrow> drop i (b @ mid) | None \<Rightarrow> []))\<rparr>)
       (lazy_scan u)"
proof (induction u arbitrary: b)
  case Nil
  show ?case
    by (subst mt.simps, subst lazy_scan.simps) (simp add: mt.simps(6) mt_space_then_bars cong: option.case_cong)
next
  case (Cons d u)
  show ?case
  proof (cases "prefix ''==='' (dropWhile is_space (d # u))")
    case True
    then show ?thesis
      by (subst mt.simps, subst lazy_scan.simps) (simp add: mt.simps(6) mt_space_then_bars cong: option.case_cong)
  next
    case False
    show ?thesis
    proof (cases "d \<noteq> CHR ''='' \<and> d \<noteq> CHR 0x0A")
      case True
      let ?pat = "[Rep Lazy 0 None (\<lambda>c. c \<noteq> CHR ''='' \<and> c \<noteq> CHR 0x0A), GClose n,
                   Rep Greedy 0 None is_space, Lit ''==='']"
      have step: "mt ?pat \<lparr>seen = b, rest = d # u, opened = ops, grp = g\<rparr>
                  = mt ?pat \<lparr>seen = b @ [d], rest = u, opened = ops, grp = g\<rparr>"
        using False True
        by (subst mt.simps) (simp add: mt.simps(6) mt_space_then_bars cong: option.case_cong)
      have scan: "lazy_scan (d # u)
                  = map_option (\<lambda>(mid, ws, t). (d # mid, ws, t)) (lazy_scan u)"
        using False True by (subst lazy_scan.simps) simp
      show ?thesis
        unfolding step scan Cons.IH
        by (simp add: option.map_comp comp_def split_def fun_upd_def
                cong: option.case_cong if_cong)
    next
      case no: False
      with False show ?thesis
        by (subst mt.simps, subst lazy_scan.simps)
           (auto simp: mt.simps(6) mt_space_then_bars cong: option.case_cong)
    qed
  qed
qed

lemma mt_marker:
  "mt marker_re (start_at bef s)
   = map_option
       (\<lambda>(ws1, name, ws2, t).
          \<lparr>seen = bef @ ''==='' @ ws1 @ name @ ws2 @ ''==='', rest = t,
           opened = [1 \<mapsto> length (bef @ ''==='' @ ws1)], grp = [1 \<mapsto> name]\<rparr>)
       (marker_scan s)"
proof (cases "prefix ''==='' s")
  case False
  then show ?thesis
    by (simp add: marker_re_def start_at_def mt.simps marker_scan_def)
next
  case True
  let ?cls = "\<lambda>c. \<not> is_space c \<and> c \<noteq> CHR ''=''"
  let ?tail = "[Rep Lazy 0 None (\<lambda>c. c \<noteq> CHR ''='' \<and> c \<noteq> CHR 0x0A), GClose 1,
                Rep Greedy 0 None is_space, Lit ''==='']"
  let ?s1 = "drop 3 s"
  let ?ws1 = "takeWhile is_space ?s1"
  have fail: "mt (GOpen 1 # Rep Greedy 1 (Some 1) ?cls # ?tail) st' = None"
    if "rest st' \<noteq> []" "is_space (hd (rest st'))" for st'
  proof -
    from that obtain c cs where r: "rest st' = c # cs" "is_space c" by (cases "rest st'") auto
    obtain b u ops g where st': "st' = \<lparr>seen = b, rest = u, opened = ops, grp = g\<rparr>"
      by (cases st') auto
    with r show ?thesis by (simp add: mt.simps(5) mt_Rep_one del: One_nat_def)
  qed
  have "mt marker_re (start_at bef s)
        = mt (Rep Greedy 0 None is_space # GOpen 1 # Rep Greedy 1 (Some 1) ?cls # ?tail)
             \<lparr>seen = bef @ ''==='', rest = ?s1, opened = Map.empty, grp = Map.empty\<rparr>"
    using True by (simp add: marker_re_def start_at_def mt.simps(2) numeral_3_eq_3)
  also have "\<dots> = mt (GOpen 1 # Rep Greedy 1 (Some 1) ?cls # ?tail)
             \<lparr>seen = (bef @ ''==='') @ ?ws1, rest = dropWhile is_space ?s1,
              opened = Map.empty, grp = Map.empty\<rparr>"
    by (rule mt_Rep_greedy_star[OF fail])
  also have "\<dots> = mt (Rep Greedy 1 (Some 1) ?cls # ?tail)
             \<lparr>seen = bef @ ''==='' @ ?ws1, rest = dropWhile is_space ?s1,
              opened = [1 \<mapsto> length (bef @ ''==='' @ ?ws1)], grp = Map.empty\<rparr>"
    by (simp add: mt.simps(5) del: One_nat_def)
  also have "\<dots> = map_option
       (\<lambda>(ws1, name, ws2, t).
          \<lparr>seen = bef @ ''==='' @ ws1 @ name @ ws2 @ ''==='', rest = t,
           opened = [1 \<mapsto> length (bef @ ''==='' @ ws1)], grp = [1 \<mapsto> name]\<rparr>)
       (marker_scan s)"
  proof (cases "dropWhile is_space ?s1")
    case Nil
    show ?thesis
      unfolding marker_scan_def Nil using True by (simp add: mt_Rep_one del: One_nat_def)
  next
    case (Cons c s3)
    show ?thesis
    proof (cases "?cls c")
      case False
      show ?thesis
        unfolding marker_scan_def Cons using True False
        by (auto simp: mt_Rep_one simp del: One_nat_def)
    next
      case ok: True
      show ?thesis
        unfolding marker_scan_def Cons using True ok
        by (simp add: mt_Rep_one mt_lazy_name option.map_comp comp_def
              split_def numeral_3_eq_3 del: One_nat_def)
    qed
  qed
  finally show ?thesis .
qed

lemma dropWhile_space_bars:
  "list_all is_space ws \<Longrightarrow> dropWhile is_space (ws @ CHR ''='' # t) = CHR ''='' # t"
  "list_all is_space ws \<Longrightarrow> takeWhile is_space (ws @ CHR ''='' # t) = ws"
  by (induction ws) (simp_all add: is_space_def)

lemma lazy_scan_sound:
  "lazy_scan u = Some (mid, ws, t) \<Longrightarrow>
     u = mid @ ws @ ''==='' @ t \<and> list_all is_space ws
     \<and> (\<forall>c \<in> set mid. c \<noteq> CHR ''='' \<and> c \<noteq> CHR 0x0A)
     \<and> (mid = [] \<or> \<not> is_space (last mid))"
proof (induction u arbitrary: mid)
  case Nil
  then show ?case by (subst (asm) lazy_scan.simps) simp
next
  case (Cons d u)
  show ?case
  proof (cases "prefix ''==='' (dropWhile is_space (d # u))")
    case True
    with Cons.prems have res: "mid = []" "ws = takeWhile is_space (d # u)"
      "t = drop 3 (dropWhile is_space (d # u))"
      by (subst (asm) lazy_scan.simps, simp)+
    from True have "dropWhile is_space (d # u) = ''==='' @ t"
      unfolding res by (auto simp: prefix_def)
    then have "d # u = ws @ ''==='' @ t"
      unfolding res(2) by (metis takeWhile_dropWhile_id)
    moreover have "list_all is_space ws"
      unfolding res(2) by (simp add: list_all_iff del: takeWhile.simps) (metis set_takeWhileD)
    ultimately show ?thesis using res(1) by simp
  next
    case False
    with Cons.prems obtain mid' where
      d: "d \<noteq> CHR ''=''" "d \<noteq> CHR 0x0A" and
      sub: "lazy_scan u = Some (mid', ws, t)" and mid: "mid = d # mid'"
      by (subst (asm) lazy_scan.simps) (auto split: if_splits)
    from Cons.IH[OF sub] have ih:
      "u = mid' @ ws @ ''==='' @ t" "list_all is_space ws"
      "\<forall>c \<in> set mid'. c \<noteq> CHR ''='' \<and> c \<noteq> CHR 0x0A"
      "mid' = [] \<or> \<not> is_space (last mid')" by simp_all
    have "\<not> is_space (last mid)"
    proof (cases "mid' = []")
      case True
      have "\<not> is_space d"
      proof
        assume "is_space d"
        with True ih(1) have "dropWhile is_space (d # u) = dropWhile is_space (ws @ ''==='' @ t)"
          by simp
        with dropWhile_space_bars(1)[OF ih(2)] False show False by simp
      qed
      with True mid show ?thesis by simp
    next
      case False
      with ih(4) mid show ?thesis by simp
    qed
    with ih d mid show ?thesis by simp
  qed
qed

lemma lazy_scan_complete:
  assumes "list_all is_space ws" "\<forall>c \<in> set mid. c \<noteq> CHR ''='' \<and> c \<noteq> CHR 0x0A"
    "mid = [] \<or> \<not> is_space (last mid)"
  shows "lazy_scan (mid @ ws @ ''==='' @ t) = Some (mid, ws, t)"
  using assms(2,3)
proof (induction mid)
  case Nil
  show ?case
    by (subst lazy_scan.simps) (simp add: dropWhile_space_bars[OF assms(1)])
next
  case (Cons d mid)
  have last_ok: "\<not> is_space (last (d # mid))" using Cons.prems(2) by simp
  then have ex: "\<exists>x \<in> set (d # mid). \<not> is_space x"
    by (metis last_in_set list.distinct(1))
  then have dw: "dropWhile is_space ((d # mid) @ ws @ ''==='' @ t)
                 = dropWhile is_space (d # mid) @ ws @ ''==='' @ t"
    by (metis dropWhile_append1)
  from ex obtain x xs where x: "dropWhile is_space (d # mid) = x # xs"
    by (metis dropWhile_eq_Nil_conv list.exhaust)
  then have "x \<in> set (d # mid)" by (metis list.set_intros(1) set_dropWhileD)
  with Cons.prems(1) have "x \<noteq> CHR ''=''" by auto
  with dw x have no: "\<not> prefix ''==='' (dropWhile is_space ((d # mid) @ ws @ ''==='' @ t))"
    by simp
  have "mid = [] \<or> \<not> is_space (last mid)" using Cons.prems(2) by (cases mid) auto
  with Cons.IH Cons.prems(1) have ih: "lazy_scan (mid @ ws @ ''==='' @ t) = Some (mid, ws, t)"
    by simp
  from Cons.prems(1) have d: "d \<noteq> CHR ''=''" "d \<noteq> CHR 0x0A" by simp_all
  show ?case
    using no d ih by (subst lazy_scan.simps) simp
qed

lemma marker_scan_sound:
  assumes "marker_scan s = Some (ws1, name, ws2, t)"
  shows "s = ''==='' @ ws1 @ name @ ws2 @ ''==='' @ t \<and> list_all is_space ws1
         \<and> list_all is_space ws2 \<and> marker_name name"
proof -
  from assms have pre: "prefix ''==='' s"
    by (auto simp: marker_scan_def split: if_splits)
  then have s: "s = ''==='' @ drop 3 s" by (auto simp: prefix_def)
  from assms pre obtain c s3 mid where
    dw: "dropWhile is_space (drop 3 s) = c # s3" and c: "\<not> is_space c" "c \<noteq> CHR ''=''" and
    scan: "lazy_scan s3 = Some (mid, ws2, t)" and
    res: "ws1 = takeWhile is_space (drop 3 s)" "name = c # mid"
    by (auto simp: marker_scan_def split: list.splits if_splits)
  from lazy_scan_sound[OF scan] have ls:
    "s3 = mid @ ws2 @ ''==='' @ t" "list_all is_space ws2"
    "\<forall>c \<in> set mid. c \<noteq> CHR ''='' \<and> c \<noteq> CHR 0x0A" "mid = [] \<or> \<not> is_space (last mid)"
    by simp_all
  have "drop 3 s = ws1 @ c # s3"
    unfolding res(1) dw[symmetric] by simp
  then have "''==='' @ drop 3 s = ''==='' @ ws1 @ name @ ws2 @ ''==='' @ t"
    by (simp add: ls(1) res(2))
  with s have shape: "s = ''==='' @ ws1 @ name @ ws2 @ ''==='' @ t"
    by (rule trans)
  have ws1: "list_all is_space ws1"
    unfolding res(1) list_all_iff by (metis set_takeWhileD)
  have "marker_name name"
    using c ls(3,4) by (auto simp: marker_name_def res(2))
  with shape ws1 ls(2) show ?thesis by blast
qed

lemma marker_scan_complete:
  assumes "list_all is_space ws1" "list_all is_space ws2" "marker_name name"
  shows "marker_scan (''==='' @ ws1 @ name @ ws2 @ ''==='' @ t) = Some (ws1, name, ws2, t)"
proof -
  from assms(3) obtain c mid where name: "name = c # mid" and c: "\<not> is_space c" "c \<noteq> CHR ''=''"
    and mid: "\<forall>c \<in> set mid. c \<noteq> CHR ''='' \<and> c \<noteq> CHR 0x0A" "mid = [] \<or> \<not> is_space (last mid)"
    by (cases name) (auto simp: marker_name_def split: if_splits)
  let ?u = "mid @ ws2 @ ''==='' @ t"
  have tw: "takeWhile is_space (ws1 @ c # ?u) = ws1" "dropWhile is_space (ws1 @ c # ?u) = c # ?u"
    using assms(1) c(1) by (induction ws1) simp_all
  have scan: "lazy_scan ?u = Some (mid, ws2, t)"
    by (rule lazy_scan_complete[OF assms(2) mid])
  have "''==='' @ ws1 @ name @ ws2 @ ''==='' @ t = ''==='' @ (ws1 @ c # ?u)"
    by (simp add: name)
  then show ?thesis
    using tw scan c by (simp add: marker_scan_def name numeral_3_eq_3)
qed

section \<open>The two fence patterns\<close>

lemma mt_Rep_greedy_star_first:
  "mt p \<lparr>seen = b @ takeWhile cls u, rest = dropWhile cls u, opened = ops, grp = g\<rparr> = Some r
   \<Longrightarrow> mt (Rep Greedy 0 None cls # p) \<lparr>seen = b, rest = u, opened = ops, grp = g\<rparr> = Some r"
proof (induction u arbitrary: b)
  case Nil
  then show ?case by (subst mt.simps) simp
next
  case (Cons c cs)
  show ?case
  proof (cases "cls c")
    case True
    with Cons.prems have
      "mt p \<lparr>seen = (b @ [c]) @ takeWhile cls cs, rest = dropWhile cls cs, opened = ops, grp = g\<rparr>
       = Some r" by simp
    from Cons.IH[OF this] True show ?thesis by (subst mt.simps) simp
  next
    case False
    with Cons.prems show ?thesis by (subst mt.simps) simp
  qed
qed

lemma mt_optional_newline:
  "mt [Rep Greedy 0 (Some 1) (\<lambda>c. c = CHR 0x0A)] \<lparr>seen = b, rest = u, opened = ops, grp = g\<rparr>
   = Some (case u of
             [] \<Rightarrow> \<lparr>seen = b, rest = [], opened = ops, grp = g\<rparr>
           | c # t \<Rightarrow> if c = CHR 0x0A then \<lparr>seen = b @ [c], rest = t, opened = ops, grp = g\<rparr>
                      else \<lparr>seen = b, rest = c # t, opened = ops, grp = g\<rparr>)"
proof -
  have zero: "mt [Rep Greedy 0 (Some 0) cls] st = Some st" for cls st
    by (subst mt.simps) (simp add: mt.simps(1) split: list.splits)
  show ?thesis
    by (subst mt.simps) (simp add: zero mt.simps(1) split: list.splits)
qed

lemma mt_fence_open_start:
  assumes "prefix ''```'' s"
  shows "\<exists>r. mt fence_open_re (start_at [] s) = Some r \<and> rest r = strip_opener s"
proof -
  let ?t = "dropWhile is_alpha (drop 3 s)"
  let ?b = "''```'' @ takeWhile is_alpha (drop 3 s)"
  let ?r = "case ?t of
             [] \<Rightarrow> \<lparr>seen = ?b, rest = [], opened = Map.empty, grp = Map.empty\<rparr>
           | c # t \<Rightarrow> if c = CHR 0x0A then \<lparr>seen = ?b @ [c], rest = t, opened = Map.empty, grp = Map.empty\<rparr>
                      else \<lparr>seen = ?b, rest = c # t, opened = Map.empty, grp = Map.empty\<rparr>"
  have "mt [Rep Greedy 0 (Some 1) (\<lambda>c. c = CHR 0x0A)]
          \<lparr>seen = ?b, rest = ?t, opened = Map.empty, grp = Map.empty\<rparr> = Some ?r"
    by (rule mt_optional_newline)
  from mt_Rep_greedy_star_first[OF this]
  have "mt [Rep Greedy 0 None is_alpha, Rep Greedy 0 (Some 1) (\<lambda>c. c = CHR 0x0A)]
          \<lparr>seen = ''```'', rest = drop 3 s, opened = Map.empty, grp = Map.empty\<rparr> = Some ?r" .
  with assms have "mt fence_open_re (start_at [] s) = Some ?r"
    by (simp add: fence_open_re_def start_at_def mt.simps(2,7) numeral_3_eq_3)
  moreover have "rest ?r = strip_opener s"
  proof (cases "dropWhile is_alpha (drop 3 s)")
    case Nil
    show ?thesis unfolding strip_opener_def Nil using assms by simp
  next
    case (Cons c t)
    show ?thesis unfolding strip_opener_def Cons using assms by simp
  qed
  ultimately show ?thesis by blast
qed

lemma mt_fence_open_no_fence:
  "\<not> prefix ''```'' s \<Longrightarrow> mt fence_open_re (start_at bef s) = None"
  by (simp add: fence_open_re_def start_at_def mt.simps(2,7))

lemma mt_fence_open_later:
  "bef \<noteq> [] \<Longrightarrow> mt fence_open_re (start_at bef s) = None"
  by (simp add: fence_open_re_def start_at_def mt.simps(7))

lemma search_fence_open_later:
  "bef \<noteq> [] \<Longrightarrow> search fence_open_re bef s = None"
  by (induction s arbitrary: bef) (simp_all add: mt_fence_open_later)

lemma re_sub_fence_open: "re_sub fence_open_re [] s = strip_opener s"
proof (cases "prefix ''```'' s")
  case False
  have "search fence_open_re [] s = None"
  proof (cases s)
    case Nil
    with False show ?thesis by (simp add: mt_fence_open_no_fence)
  next
    case (Cons c cs)
    with False show ?thesis
      by (simp add: mt_fence_open_no_fence search_fence_open_later)
  qed
  then have "finditer_from fence_open_re s 0 = []"
    by (subst finditer_from.simps) simp
  with False show ?thesis by (simp add: re_sub_def finditer_def strip_opener_def)
next
  case True
  then obtain c cs where s: "s = c # cs" by (cases s) auto
  from mt_fence_open_start[OF True] obtain r where
    r: "mt fence_open_re (start_at [] s) = Some r" "rest r = strip_opener s" by blast
  from mt_consumes[OF r(1)] have split: "seen r @ rest r = s" by (auto simp: start_at_def)
  have m: "search fence_open_re [] s = Some (mk_match [] r)"
    using r(1) by (simp add: s)
  from search_not_empty[OF patterns_not_empty(2) m] have pos: "0 < length (seen r)"
    by (simp add: mk_match_def)
  from split have le: "length (seen r) \<le> length s" by (metis length_append le_add1)
  from pos s have "take (length (seen r)) s \<noteq> []" by auto
  then have nxt: "finditer_from fence_open_re s (length (seen r)) = []"
    using le by (subst finditer_from.simps) (simp add: search_fence_open_later)
  have "finditer_from fence_open_re s 0 = [mk_match [] r]"
    using m pos nxt by (subst finditer_from.simps) (simp add: mk_match_def)
  then have "re_sub fence_open_re [] s = drop (length (seen r)) s"
    by (simp add: re_sub_def finditer_def mk_match_def)
  also have "\<dots> = rest r" using split by (metis append_eq_conv_conj)
  finally show ?thesis using r(2) by simp
qed

lemma mt_space_then_end:
  "mt [Rep Greedy 0 None is_space, Eos] \<lparr>seen = b, rest = v, opened = ops, grp = g\<rparr>
   = (if list_all is_space v then Some \<lparr>seen = b @ v, rest = [], opened = ops, grp = g\<rparr>
      else None)"
proof (induction v arbitrary: b)
  case Nil
  show ?case by (subst mt.simps) (simp add: mt.simps(1,8))
next
  case (Cons c cs)
  show ?case
  proof (cases "is_space c")
    case True
    show ?thesis
    proof (cases "list_all is_space cs")
      case all: True
      with True Cons.IH[of "b @ [c]"] show ?thesis by (subst mt.simps) simp
    next
      case False
      then have "cs \<noteq> []" by auto
      with True False Cons.IH[of "b @ [c]"] show ?thesis
        by (subst mt.simps) (simp add: mt.simps(1,8))
    qed
  next
    case False
    then have "c \<noteq> CHR 0x0A" by (auto simp: is_space_def)
    with False show ?thesis by (subst mt.simps) (simp add: mt.simps(1,8))
  qed
qed

lemma mt_fence_then_end:
  "mt [Lit ''```'', Rep Greedy 0 None is_space, Eos]
      \<lparr>seen = b, rest = v, opened = ops, grp = g\<rparr>
   = (if prefix ''```'' v \<and> list_all is_space (drop 3 v)
      then Some \<lparr>seen = b @ v, rest = [], opened = ops, grp = g\<rparr>
      else None)"
proof (cases "prefix ''```'' v")
  case False
  then show ?thesis by (simp add: mt.simps(2))
next
  case True
  then have "v = ''```'' @ drop 3 v" by (auto simp: prefix_def)
  then have "b @ v = (b @ ''```'') @ drop 3 v" by (metis append_assoc)
  with True show ?thesis
    by (simp add: mt.simps(2) mt_space_then_end numeral_3_eq_3)
qed

lemma mt_fence_close:
  "mt fence_close_re (start_at bef u)
   = (if closer u
      then Some \<lparr>seen = bef @ u, rest = [], opened = Map.empty, grp = Map.empty\<rparr>
      else None)"
proof -
  let ?q = "[Lit ''```'', Rep Greedy 0 None is_space, Eos]"
  have zero: "mt (Rep Greedy 0 (Some 0) cls # ?q) st = mt ?q st" for cls st
    by (subst mt.simps) (simp split: list.splits)
  have shape: "(prefix ''```'' v \<and> list_all is_space (drop 3 v))
                 \<longleftrightarrow> (\<exists>w. list_all is_space w \<and> v = ''```'' @ w)" for v
    by (auto simp: prefix_def)
  show ?thesis
  proof (cases u)
    case Nil
    have "\<not> closer []" by (simp add: closer_def)
    then show ?thesis
      unfolding fence_close_re_def start_at_def Nil
      by (subst mt.simps) (simp add: mt_fence_then_end)
  next
    case (Cons c u')
    show ?thesis
    proof (cases "c = CHR 0x0A")
      case True
      have no: "mt ?q \<lparr>seen = bef, rest = c # u', opened = Map.empty, grp = Map.empty\<rparr> = None"
        using True by (simp add: mt_fence_then_end)
      have "closer u \<longleftrightarrow> prefix ''```'' u' \<and> list_all is_space (drop 3 u')"
        unfolding shape Cons True closer_def by auto
      then show ?thesis
        unfolding fence_close_re_def start_at_def Cons
        using True no
        by (subst mt.simps) (simp add: zero mt_fence_then_end)
    next
      case False
      have "closer u \<longleftrightarrow> prefix ''```'' u \<and> list_all is_space (drop 3 u)"
        unfolding shape closer_def using False Cons by auto
      then show ?thesis
        unfolding fence_close_re_def start_at_def Cons
        using False
        by (subst mt.simps) (simp add: mt_fence_then_end)
    qed
  qed
qed

lemma closer_of_tidy:
  assumes "s = [] \<or> \<not> is_space (last s)" "s = pre @ u"
  shows "closer u \<longleftrightarrow> u = CHR 0x0A # ''```'' \<or> u = ''```''"
proof
  assume "closer u"
  then obtain w where w: "list_all is_space w" "u = CHR 0x0A # ''```'' @ w \<or> u = ''```'' @ w"
    by (auto simp: closer_def)
  have "w = []"
  proof (rule ccontr)
    assume "w \<noteq> []"
    with w(2) assms(2) have "last s = last w" by auto
    moreover from w(1) \<open>w \<noteq> []\<close> have "is_space (last w)"
      by (metis last_in_set list_all_iff)
    moreover from w(2) assms(2) have "s \<noteq> []" by auto
    ultimately show False using assms(1) by simp
  qed
  with w(2) show "u = CHR 0x0A # ''```'' \<or> u = ''```''" by simp
next
  assume "u = CHR 0x0A # ''```'' \<or> u = ''```''"
  then have "list_all is_space [] \<and> (u = CHR 0x0A # ''```'' @ [] \<or> u = ''```'' @ [])"
    by simp
  then show "closer u" unfolding closer_def by blast
qed

lemma finditer_fence_close_end: "finditer_from fence_close_re s (length s) = []"
proof -
  have "\<not> closer []" by (simp add: closer_def)
  then show ?thesis
    by (subst finditer_from.simps) (simp add: mt_fence_close)
qed

lemma re_sub_fence_close_at:
  assumes tidy: "s = [] \<or> \<not> is_space (last s)"
    and s: "s = pre @ u" and u: "u = CHR 0x0A # ''```'' \<or> (u = ''```'' \<and> \<not> suffix [CHR 0x0A] pre)"
  shows "re_sub fence_close_re [] s = pre"
proof -
  from u have cu: "closer u" using closer_of_tidy[OF tidy s] by blast
  let ?r = "\<lparr>seen = [] @ pre @ u, rest = [], opened = Map.empty, grp = Map.empty\<rparr>"
  have hit: "mt fence_close_re (start_at ([] @ pre) u) = Some ?r"
    using cu by (simp add: mt_fence_close)
  have miss: "mt fence_close_re (start_at ([] @ pre1) (pre2 @ u)) = None"
    if "pre = pre1 @ pre2" "pre2 \<noteq> []" for pre1 pre2
  proof -
    from that s have "s = pre1 @ (pre2 @ u)" by simp
    from closer_of_tidy[OF tidy this]
    have "closer (pre2 @ u) \<longleftrightarrow> pre2 @ u = CHR 0x0A # ''```'' \<or> pre2 @ u = ''```''" .
    moreover have "pre2 @ u \<noteq> ''```''"
      using u that(2) by (auto simp: append_eq_Cons_conv)
    moreover have "pre2 @ u \<noteq> CHR 0x0A # ''```''"
    proof
      assume eq: "pre2 @ u = CHR 0x0A # ''```''"
      from u show False
      proof
        assume "u = CHR 0x0A # ''```''"
        with eq that(2) show False by simp
      next
        assume a: "u = ''```'' \<and> \<not> suffix [CHR 0x0A] pre"
        with eq have "pre2 = [CHR 0x0A]" by simp
        with that(1) a show False by (simp add: suffix_def)
      qed
    qed
    ultimately show ?thesis by (simp add: mt_fence_close)
  qed
  let ?m = "\<lparr>m_start = length pre, m_end = length s, m_group = Map.empty\<rparr>"
  have "mk_match ([] @ pre) ?r = ?m" using s by (simp add: mk_match_def)
  with search_leftmost[OF hit miss]
  have found: "search fence_close_re [] s = Some ?m" using s by simp
  have "u \<noteq> []" using u by auto
  then have lt: "length pre < length s" using s by simp
  have "finditer_from fence_close_re s 0 = [?m]"
    using found lt
    by (subst finditer_from.simps) (simp add: finditer_fence_close_end)
  then have "re_sub fence_close_re [] s = take (length pre) s"
    by (simp add: re_sub_def finditer_def)
  then show ?thesis using s by simp
qed

lemma re_sub_fence_close:
  assumes tidy: "s = [] \<or> \<not> is_space (last s)"
  shows "re_sub fence_close_re [] s = strip_closer s"
proof (cases "suffix (CHR 0x0A # ''```'') s")
  case True
  then obtain pre where s: "s = pre @ CHR 0x0A # ''```''" by (auto simp: suffix_def)
  from re_sub_fence_close_at[OF tidy s] have "re_sub fence_close_re [] s = pre" by simp
  with True s show ?thesis by (simp add: strip_closer_def)
next
  case False
  show ?thesis
  proof (cases "suffix ''```'' s")
    case True
    then obtain pre where s: "s = pre @ ''```''" by (auto simp: suffix_def)
    with False have "\<not> suffix [CHR 0x0A] pre" by (auto simp: suffix_def)
    with re_sub_fence_close_at[OF tidy s] have "re_sub fence_close_re [] s = pre" by simp
    with True False s show ?thesis by (simp add: strip_closer_def)
  next
    case no: False
    have "search fence_close_re [] s = None"
    proof (rule search_nowhere)
      fix pre u
      assume s: "s = pre @ u"
      from closer_of_tidy[OF tidy s] no False s
      have "\<not> closer u" by (auto simp: suffix_def)
      then show "mt fence_close_re (start_at ([] @ pre) u) = None"
        by (simp add: mt_fence_close)
    qed
    then have "finditer_from fence_close_re s 0 = []"
      by (subst finditer_from.simps) simp
    with no False show ?thesis by (simp add: re_sub_def finditer_def strip_closer_def)
  qed
qed

lemma py_rstrip_tidy: "py_rstrip s = [] \<or> \<not> is_space (last (py_rstrip s))"
proof (cases "dropWhile is_space (rev s)")
  case Nil
  then show ?thesis by (simp add: py_rstrip_def)
next
  case (Cons c cs)
  then have "\<not> is_space c" by (metis hd_dropWhile list.sel(1) list.distinct(1))
  with Cons show ?thesis by (simp add: py_rstrip_def)
qed

section \<open>Claims about parse\_response\<close>

text \<open>
  C2. The extractor is total: for every input string, \<^verbatim>\<open>parse_response\<close> returns
  without raising, and the dictionary it returns has at least one entry.
\<close>

theorem parse_response_total:
  "\<exists>fls out. parse_response content = Inr (fls, out) \<and> fls \<noteq> []"
proof -
  obtain f1 where f1: "delimited_sections content [] = Inr f1"
    using delimited_sections_ok by blast
  obtain f2 where f2: "heading_blocks content [] = Inr f2"
    using heading_blocks_ok by blast
  obtain f3 where f3: "bold_blocks content [] = Inr f3"
    using bold_blocks_ok by blast
  show ?thesis
    by (cases "f1 = []"; cases "f2 = []"; cases "f3 = []")
       (simp_all add: parse_response_def f1 f2 f3)
qed

text \<open>
  C4, as the code has it. The primary format recognizes exactly the markers made of three
  equals signs, optional whitespace, a name, optional whitespace and three equals signs,
  where the name starts with a character that is neither whitespace nor an equals sign
  and goes on with characters other than the equals sign and the newline: blanks inside
  the name are allowed, and the name is taken without the whitespace around it. This holds
  at every position of every text; the split has more than one part exactly when the
  text contains such a marker; and every non-empty run of characters that are neither
  whitespace nor equals signs is such a name.
\<close>

theorem marker_shape:
  "((\<exists>r. mt marker_re (start_at bef s) = Some r \<and> grp r 1 = Some name \<and> rest r = t)
      \<longleftrightarrow> (\<exists>ws1 ws2. s = ''==='' @ ws1 @ name @ ws2 @ ''==='' @ t
             \<and> list_all is_space ws1 \<and> list_all is_space ws2 \<and> marker_name name))
   \<and> (1 < length (re_split marker_re content)
      \<longleftrightarrow> (\<exists>pre ws1 name' ws2 t'. content = pre @ ''==='' @ ws1 @ name' @ ws2 @ ''==='' @ t'
             \<and> list_all is_space ws1 \<and> list_all is_space ws2 \<and> marker_name name'))
   \<and> (run \<noteq> [] \<and> (\<forall>c \<in> set run. \<not> is_space c \<and> c \<noteq> CHR ''='') \<longrightarrow> marker_name run)"
proof (intro conjI)
  show "(\<exists>r. mt marker_re (start_at bef s) = Some r \<and> grp r 1 = Some name \<and> rest r = t)
      \<longleftrightarrow> (\<exists>ws1 ws2. s = ''==='' @ ws1 @ name @ ws2 @ ''==='' @ t
             \<and> list_all is_space ws1 \<and> list_all is_space ws2 \<and> marker_name name)"
    (is "?L \<longleftrightarrow> ?R")
  proof
    assume ?L
    then obtain r where r: "mt marker_re (start_at bef s) = Some r" "grp r 1 = Some name"
      "rest r = t" by blast
    from r(1) obtain ws1 n ws2 t' where scan: "marker_scan s = Some (ws1, n, ws2, t')"
      and r': "r = \<lparr>seen = bef @ ''==='' @ ws1 @ n @ ws2 @ ''==='', rest = t',
                   opened = [1 \<mapsto> length (bef @ ''==='' @ ws1)], grp = [1 \<mapsto> n]\<rparr>"
      unfolding mt_marker by auto
    from r(2,3) r' have "n = name" "t' = t" by simp_all
    with marker_scan_sound[OF scan] show ?R by blast
  next
    assume ?R
    then obtain ws1 ws2 where
      "s = ''==='' @ ws1 @ name @ ws2 @ ''==='' @ t" "list_all is_space ws1"
      "list_all is_space ws2" "marker_name name" by blast
    with marker_scan_complete[of ws1 ws2 name t]
    have "marker_scan s = Some (ws1, name, ws2, t)" by simp
    then show ?L unfolding mt_marker by simp
  qed
next
  show "1 < length (re_split marker_re content)
      \<longleftrightarrow> (\<exists>pre ws1 name' ws2 t'. content = pre @ ''==='' @ ws1 @ name' @ ws2 @ ''==='' @ t'
             \<and> list_all is_space ws1 \<and> list_all is_space ws2 \<and> marker_name name')"
    (is "?L \<longleftrightarrow> ?R")
  proof
    assume ?L
    then obtain m where "search marker_re [] content = Some m"
      unfolding re_split_parts by blast
    from search_finds[OF this] obtain pre u r where
      u: "content = pre @ u" "mt marker_re (start_at ([] @ pre) u) = Some r" by blast
    from u(2) obtain ws1 n ws2 t' where "marker_scan u = Some (ws1, n, ws2, t')"
      unfolding mt_marker by auto
    from marker_scan_sound[OF this] u(1) show ?R by blast
  next
    assume ?R
    then obtain pre ws1 name' ws2 t' where
      c: "content = pre @ ''==='' @ ws1 @ name' @ ws2 @ ''==='' @ t'" and
      ok: "list_all is_space ws1" "list_all is_space ws2" "marker_name name'" by blast
    have "search marker_re [] content \<noteq> None"
    proof
      assume "search marker_re [] content = None"
      from search_misses[OF this c]
      have "mt marker_re (start_at ([] @ pre) (''==='' @ ws1 @ name' @ ws2 @ ''==='' @ t')) = None" .
      moreover
      have "mt marker_re (start_at ([] @ pre) (''==='' @ ws1 @ name' @ ws2 @ ''==='' @ t')) \<noteq> None"
        unfolding mt_marker marker_scan_complete[OF ok] by simp
      ultimately show False by contradiction
    qed
    then show ?L unfolding re_split_parts .
  qed
next
  show "run \<noteq> [] \<and> (\<forall>c \<in> set run. \<not> is_space c \<and> c \<noteq> CHR ''='') \<longrightarrow> marker_name run"
  proof
    assume a: "run \<noteq> [] \<and> (\<forall>c \<in> set run. \<not> is_space c \<and> c \<noteq> CHR ''='')"
    have nl: "is_space (CHR 0x0A)" by (simp add: is_space_def)
    have "c \<noteq> CHR ''='' \<and> c \<noteq> CHR 0x0A" if "c \<in> set (tl run)" for c
    proof -
      from that a have "c \<in> set run" by (auto dest: list.set_sel(2))
      with a nl show ?thesis by auto
    qed
    with a show "marker_name run" by (simp add: marker_name_def)
  qed
qed

theorem marker_shape_witness:
  "marker_name ''my file''
   \<and> (\<exists>r. mt marker_re (start_at [] ''=== my file ===\<newline>hello'') = Some r
          \<and> grp r 1 = Some ''my file'' \<and> rest r = ''\<newline>hello'')
   \<and> 1 < length (re_split marker_re ''=== my file ===\<newline>hello'')
   \<and> marker_name ''style.css''"
proof -
  let ?text = "''=== my file ===\<newline>hello''"
  note shape = marker_shape[of "[]" ?text "''my file''" "''\<newline>hello''" ?text "''style.css''"]
  have sp: "list_all is_space '' ''" by (simp add: is_space_def)
  have name: "marker_name ''my file''" by (simp add: marker_name_def is_space_def)
  have cut: "?text = ''==='' @ '' '' @ ''my file'' @ '' '' @ ''==='' @ ''\<newline>hello''"
    by simp
  from cut sp name have here:
    "\<exists>ws1 ws2. ?text = ''==='' @ ws1 @ ''my file'' @ ws2 @ ''==='' @ ''\<newline>hello''
        \<and> list_all is_space ws1 \<and> list_all is_space ws2 \<and> marker_name ''my file''"
    by blast
  from cut sp name have there:
    "\<exists>pre ws1 name' ws2 t'. ?text = pre @ ''==='' @ ws1 @ name' @ ws2 @ ''==='' @ t'
        \<and> list_all is_space ws1 \<and> list_all is_space ws2 \<and> marker_name name'"
    by (metis append_Nil)
  have run: "''style.css'' \<noteq> [] \<and> (\<forall>c \<in> set ''style.css''. \<not> is_space c \<and> c \<noteq> CHR ''='')"
    by (simp add: is_space_def)
  from shape here there run name show ?thesis by blast
qed

text \<open>
  The claim C4 says that a marker whose name has a blank inside is not recognized. It is:
  the text is split at \<^verbatim>\<open>=== my file ===\<close>, and the entry is stored under the name
  \<^verbatim>\<open>my file\<close>.
\<close>

theorem name_with_blank_is_recognized:
  "re_split marker_re ''=== my file ===\<newline>hello''
     = [Some [], Some ''my file'', Some ''\<newline>hello'']
   \<and> parse_response ''=== my file ===\<newline>hello'' = Inr ([(''my file'', ''hello'')], [])"
  by code_simp

text \<open>
  C5. Strict priority with early termination: on every input where the primary format
  yields at least one entry, the result is what the primary format yielded and nothing
  else; the two other formats and the last resort add nothing, and nothing is printed.
\<close>

theorem primary_format_wins:
  assumes "delimited_sections content [] = Inr fls" and "fls \<noteq> []"
  shows "parse_response content = Inr (fls, [])"
  using assms by (simp add: parse_response_def)

theorem primary_format_wins_witness:
  "delimited_sections ''=== a.txt ===\<newline>hello\<newline>### b.txt\<newline>```\<newline>world\<newline>```'' []
     = Inr [(''a.txt'', ''hello\<newline>### b.txt\<newline>```\<newline>world'')]
   \<and> heading_blocks ''=== a.txt ===\<newline>hello\<newline>### b.txt\<newline>```\<newline>world\<newline>```'' []
     = Inr [(''b.txt'', ''world'')]
   \<and> parse_response ''=== a.txt ===\<newline>hello\<newline>### b.txt\<newline>```\<newline>world\<newline>```''
     = Inr ([(''a.txt'', ''hello\<newline>### b.txt\<newline>```\<newline>world'')], [])"
proof -
  let ?text = "''=== a.txt ===\<newline>hello\<newline>### b.txt\<newline>```\<newline>world\<newline>```''"
  have d: "delimited_sections ?text []
             = Inr [(''a.txt'', ''hello\<newline>### b.txt\<newline>```\<newline>world'')]"
    by code_simp
  have h: "heading_blocks ?text [] = Inr [(''b.txt'', ''world'')]"
    by code_simp
  from d h primary_format_wins[OF d] show ?thesis by simp
qed

text \<open>
  C6. Fence stripping in the primary format: the marker \<^verbatim>\<open>=== a.css ===\<close> followed by a
  fenced block with the language tag \<^verbatim>\<open>css\<close> and the line \<^verbatim>\<open>body{}\<close> yields exactly the
  entry \<^verbatim>\<open>a.css\<close> with the content \<^verbatim>\<open>body{}\<close>. For every name and every body, the body
  of the loop trims the body, removes one opening fence with its language tag at the
  start, if there is one, and one closing fence at the end, if there is one, and trims
  again; of a block fenced twice the inner fences stay.
\<close>

theorem fence_stripping:
  "parse_response ''=== a.css ===\<newline>```css\<newline>body{}\<newline>```''
     = Inr ([(''a.css'', ''body{}'')], [])
   \<and> section_step [Some preamble, Some name, Some body] 1 fls
     = Inr (let content = strip_closer (py_rstrip (strip_opener (py_strip body)))
            in if py_strip name \<noteq> [] \<and> content \<noteq> []
               then dict_set (py_strip name) (py_strip content) fls
               else fls)
   \<and> parse_response
       ''=== a.css ===\<newline>```css\<newline>```css\<newline>body{}\<newline>```\<newline>```''
     = Inr ([(''a.css'', ''```css\<newline>body{}\<newline>```'')], [])"
proof -
  have one: "parse_response ''=== a.css ===\<newline>```css\<newline>body{}\<newline>```''
     = Inr ([(''a.css'', ''body{}'')], [])"
    by code_simp
  have two: "parse_response
       ''=== a.css ===\<newline>```css\<newline>```css\<newline>body{}\<newline>```\<newline>```''
     = Inr ([(''a.css'', ''```css\<newline>body{}\<newline>```'')], [])"
    by code_simp
  have step: "section_step [Some preamble, Some name, Some body] 1 fls
     = Inr (let content = strip_closer (py_rstrip (strip_opener (py_strip body)))
            in if py_strip name \<noteq> [] \<and> content \<noteq> []
               then dict_set (py_strip name) (py_strip content) fls
               else fls)"
    by (simp add: section_step_def getitem_def strip_of_def Let_def re_sub_fence_open
          re_sub_fence_close[OF py_rstrip_tidy])
  from one step two show ?thesis by blast
qed

text \<open>
  C7. The last resort: on every input where the three formats yield no entry,
  \<^verbatim>\<open>parse_response\<close> returns the single entry \<^verbatim>\<open>index.html\<close> with the whole input,
  untrimmed, as its content, and prints the warning once. When one of the formats
  yields an entry, nothing is printed.
\<close>

theorem last_resort:
  "\<exists>fls out. parse_response content = Inr (fls, out) \<and>
     (if delimited_sections content [] = Inr [] \<and> heading_blocks content [] = Inr []
         \<and> bold_blocks content [] = Inr []
      then fls = [(''index.html'', content)] \<and> out = [(Stderr, fallback_warning)]
      else out = [])"
proof -
  obtain f1 where f1: "delimited_sections content [] = Inr f1"
    using delimited_sections_ok by blast
  obtain f2 where f2: "heading_blocks content [] = Inr f2"
    using heading_blocks_ok by blast
  obtain f3 where f3: "bold_blocks content [] = Inr f3"
    using bold_blocks_ok by blast
  show ?thesis
    by (cases "f1 = []"; cases "f2 = []"; cases "f3 = []")
       (simp_all add: parse_response_def f1 f2 f3)
qed

theorem last_resort_witness:
  "parse_response ''  Hei maailma\<newline>''
     = Inr ([(''index.html'', ''  Hei maailma\<newline>'')], [(Stderr, fallback_warning)])
   \<and> (\<exists>fls. parse_response ''**a.js**\<newline>```js\<newline>x = 1\<newline>```'' = Inr (fls, []))"
proof -
  have d: "delimited_sections ''  Hei maailma\<newline>'' [] = Inr []" by code_simp
  have h: "heading_blocks ''  Hei maailma\<newline>'' [] = Inr []" by code_simp
  have b: "bold_blocks ''  Hei maailma\<newline>'' [] = Inr []" by code_simp
  have b': "bold_blocks ''**a.js**\<newline>```js\<newline>x = 1\<newline>```'' [] \<noteq> Inr []" by code_simp
  from last_resort[of "''  Hei maailma\<newline>''"] d h b
  have one: "parse_response ''  Hei maailma\<newline>''
     = Inr ([(''index.html'', ''  Hei maailma\<newline>'')], [(Stderr, fallback_warning)])"
    by auto
  from last_resort[of "''**a.js**\<newline>```js\<newline>x = 1\<newline>```''"] b'
  have two: "\<exists>fls. parse_response ''**a.js**\<newline>```js\<newline>x = 1\<newline>```'' = Inr (fls, [])"
    by auto
  from one two show ?thesis by blast
qed

text \<open>
  C9, as the code has it. On the empty input \<^verbatim>\<open>parse_response\<close> returns exactly the
  single entry \<^verbatim>\<open>index.html\<close> with the empty content, and prints the warning: the default
  name is \<^verbatim>\<open>index.html\<close> and the content of the last-resort entry can be empty. The two
  block formats store the trimmed body of every match without looking at it, so their
  entries can be empty too.
\<close>

theorem empty_input:
  "parse_response [] = Inr ([(''index.html'', [])], [(Stderr, fallback_warning)])
   \<and> parse_response ''## notes.md\<newline>```md\<newline>  \<newline>```'' = Inr ([(''notes.md'', [])], [])
   \<and> parse_response ''**a.txt**\<newline>```\<newline>```'' = Inr ([(''a.txt'', [])], [])"
  by code_simp

text \<open>
  The claim C9 says that the entries of the three formats are never empty. A heading
  followed by an empty fenced block gives an entry with empty content, found by the
  second format and not by the last resort (nothing is printed).
\<close>

theorem empty_content_from_heading_format:
  "heading_blocks ''### a.txt\<newline>```\<newline>```'' [] = Inr [(''a.txt'', [])]
   \<and> parse_response ''### a.txt\<newline>```\<newline>```'' = Inr ([(''a.txt'', [])], [])"
  by code_simp

section \<open>Claims about write\_files\<close>






lemma write_one_skip:
  "prefix ''..'' (normpath filename) \<Longrightarrow>
   write_one env (filename, content) st
     = Inr (st\<lparr>printed := printed st @ [(Stderr, skip_line filename)]\<rparr>)"
  by (simp add: write_one_def Let_def)




lemma write_one_dotdot_untouched:
  assumes "prefix ''..'' p"
  shows "stored (fsys (final_state (write_one env item st))) p = stored (fsys st) p"
proof -
  obtain filename content where item: "item = (filename, content)" by (cases item)
  show ?thesis
  proof (cases "prefix ''..'' (normpath filename)")
    case True
    then show ?thesis by (simp add: item write_one_skip final_state_def)
  next
    case False
    with assms have "p \<noteq> normpath filename" by auto
    with False show ?thesis
      by (auto simp: item write_one_def Let_def makedirs_def open_write_def final_state_def
               split: sum.splits option.splits if_splits)
  qed
qed

lemma write_loop_dotdot_untouched:
  assumes "prefix ''..'' p"
  shows "stored (fsys (final_state (write_loop env fls st))) p = stored (fsys st) p"
proof (induction fls arbitrary: st)
  case Nil
  then show ?case by (simp add: final_state_def)
next
  case (Cons item fls)
  show ?case
  proof (cases "write_one env item st")
    case (Inl failed)
    with write_one_dotdot_untouched[OF assms, of env item st] show ?thesis by simp
  next
    case (Inr st')
    with write_one_dotdot_untouched[OF assms, of env item st] Cons.IH[of st']
    show ?thesis by (simp add: final_state_def)
  qed
qed

lemma write_one_written:
  assumes "write_one env item st = Inr st'" "\<forall>p \<in> set (written st). \<not> prefix ''..'' p"
  shows "\<forall>p \<in> set (written st'). \<not> prefix ''..'' p"
  using assms
  by (cases item)
     (auto simp: write_one_def Let_def split: if_splits sum.splits option.splits prod.splits)

lemma write_loop_written:
  assumes "write_loop env fls st = Inr st'" "\<forall>p \<in> set (written st). \<not> prefix ''..'' p"
  shows "\<forall>p \<in> set (written st'). \<not> prefix ''..'' p"
  using assms
proof (induction fls arbitrary: st)
  case Nil
  then show ?case by simp
next
  case (Cons item fls)
  from Cons.prems(1) obtain st1 where
    one: "write_one env item st = Inr st1" and rest: "write_loop env fls st1 = Inr st'"
    by (auto split: sum.splits)
  from Cons.IH[OF rest write_one_written[OF one Cons.prems(2)]] show ?case .
qed

text \<open>
  C10. The safety check is a test of the first two characters of the normalized name.
  An entry whose normalized name starts with two dots is skipped: the body of the loop
  prints the notice and changes nothing else. Whatever the dictionary, a call of
  \<^verbatim>\<open>write_files\<close> leaves every path that starts with two dots as it was, and no such path
  is in the list it returns. The name \<^verbatim>\<open>..config\<close>, a plain file name, is skipped too.
\<close>

theorem dotdot_prefix_skipped:
  "(prefix ''..'' (normpath filename) \<longrightarrow>
      write_one env (filename, content) st
        = Inr (st\<lparr>printed := printed st @ [(Stderr, skip_line filename)]\<rparr>))
   \<and> (\<forall>p. prefix ''..'' p \<longrightarrow>
          stored (snd (snd (write_files env fls fs))) p = stored fs p)
   \<and> (\<forall>w. fst (write_files env fls fs) = Inr w \<longrightarrow> (\<forall>p \<in> set w. \<not> prefix ''..'' p))"
proof (intro conjI allI impI)
  assume "prefix ''..'' (normpath filename)"
  then show "write_one env (filename, content) st
        = Inr (st\<lparr>printed := printed st @ [(Stderr, skip_line filename)]\<rparr>)"
    by (rule write_one_skip)
next
  fix p :: string
  assume "prefix ''..'' p"
  from write_loop_dotdot_untouched[OF this, of env fls "\<lparr>written = [], printed = [], fsys = fs\<rparr>"]
  show "stored (snd (snd (write_files env fls fs))) p = stored fs p"
    by (simp add: write_files_def final_state_def split: sum.splits prod.splits)
next
  fix w
  assume "fst (write_files env fls fs) = Inr w"
  then obtain st' where
    "write_loop env fls \<lparr>written = [], printed = [], fsys = fs\<rparr> = Inr st'" "w = written st'"
    by (auto simp: write_files_def split: sum.splits prod.splits)
  with write_loop_written[of env fls "\<lparr>written = [], printed = [], fsys = fs\<rparr>" st']
  show "\<forall>p \<in> set w. \<not> prefix ''..'' p" by simp
qed

lemma normpath_dotdot_config: "normpath ''..config'' = ''..config''"
  by code_simp

theorem dotdot_prefix_skipped_witness:
  "normpath ''..config'' = ''..config''
   \<and> write_files no_failures [(''..config'', ''x = 1'')] empty_fs
       = (Inr [], [(Stderr, skip_line ''..config'')], empty_fs)"
proof -
  have pre: "prefix ''..'' (normpath ''..config'')"
    by (simp add: normpath_dotdot_config)
  from dotdot_prefix_skipped[of "''..config''" no_failures "''x = 1''"
        "\<lparr>written = [], printed = [], fsys = empty_fs\<rparr>" "[]" empty_fs] pre
  have "write_one no_failures (''..config'', ''x = 1'') \<lparr>written = [], printed = [], fsys = empty_fs\<rparr>
        = Inr \<lparr>written = [], printed = [(Stderr, skip_line ''..config'')], fsys = empty_fs\<rparr>"
    by simp
  then show ?thesis
    by (simp add: write_files_def normpath_dotdot_config)
qed

lemma absolute_passes: "\<not> prefix ''..'' (normpath (CHR ''/'' # path))"
proof -
  have "\<exists>t. normpath (CHR ''/'' # path) = CHR ''/'' # t"
    by (auto simp: normpath_def Let_def numeral_2_eq_2)
  then show ?thesis by auto
qed

text \<open>
  C1 fails on the code. The comment of the check reads "only allow safe relative paths",
  but an absolute path does not start with two dots and passes the check, whatever it is:
  the entry \<^verbatim>\<open>/etc/passwd\<close>, which \<^verbatim>\<open>parse_response\<close> returns for a marker of that name, is
  written at \<^verbatim>\<open>/etc/passwd\<close>, outside every destination root other than the root directory.
\<close>

theorem absolute_path_is_written:
  "parse_response ''=== /etc/passwd ===\<newline>x'' = Inr ([(''/etc/passwd'', ''x'')], [])
   \<and> normpath ''/etc/passwd'' = ''/etc/passwd''
   \<and> write_files no_failures [(''/etc/passwd'', ''x'')] empty_fs
       = (Inr [''/etc/passwd''], [(Stdout, ''  Written: /etc/passwd  (1 chars)'')],
          \<lparr>stored = [''/etc/passwd'' \<mapsto> ''x''], dirs = {''/etc''}\<rparr>)
   \<and> \<not> prefix ''..'' (normpath (CHR ''/'' # path))"
proof -
  have p: "parse_response ''=== /etc/passwd ===\<newline>x'' = Inr ([(''/etc/passwd'', ''x'')], [])"
    by code_simp
  have n: "normpath ''/etc/passwd'' = ''/etc/passwd''" by code_simp
  have d: "dirname ''/etc/passwd'' = ''/etc''" by code_simp
  have c: "dir_chain ''/etc'' = [''/etc'']" by code_simp
  have l: "written_line ''/etc/passwd'' ''x'' = ''  Written: /etc/passwd  (1 chars)''"
    by code_simp
  have "write_files no_failures [(''/etc/passwd'', ''x'')] empty_fs
       = (Inr [''/etc/passwd''], [(Stdout, ''  Written: /etc/passwd  (1 chars)'')],
          \<lparr>stored = [''/etc/passwd'' \<mapsto> ''x''], dirs = {''/etc''}\<rparr>)"
    by (simp add: n d c l Let_def write_files_def write_one_def makedirs_def open_write_def
          no_failures_def empty_fs_def)
  with p n absolute_passes show ?thesis by blast
qed

text \<open>
  The claim C3 says that after a failure the remaining files are still attempted. When
  \<^verbatim>\<open>open\<close> fails for \<^verbatim>\<open>a.txt\<close>, the call ends with that exception and \<^verbatim>\<open>b.txt\<close> is never
  written, although writing it alone succeeds in the same environment.
\<close>

theorem failure_ends_the_run:
  "write_files (open_denied ''a.txt'') [(''a.txt'', ''one''), (''b.txt'', ''two'')] empty_fs
     = (Inl (OSError ''a.txt''), [], empty_fs)
   \<and> write_files (open_denied ''a.txt'') [(''b.txt'', ''two'')] empty_fs
     = (Inr [''b.txt''], [(Stdout, ''  Written: b.txt  (3 chars)'')],
        \<lparr>stored = [''b.txt'' \<mapsto> ''two''], dirs = {}\<rparr>)"
proof -
  have n: "normpath ''a.txt'' = ''a.txt''" "normpath ''b.txt'' = ''b.txt''" by code_simp+
  have d: "dirname ''a.txt'' = []" "dirname ''b.txt'' = []" by code_simp+
  have l: "written_line ''b.txt'' ''two'' = ''  Written: b.txt  (3 chars)''"
    by code_simp
  show ?thesis
    by (simp add: n d l Let_def write_files_def write_one_def makedirs_def open_write_def
          no_failures_def open_denied_def empty_fs_def)
qed

text \<open>
  C3, as the code has it. A failure of the operating system while an entry is written is
  not caught: the exception leaves the loop and the function, so the caller gets it, and
  no entry after the failing one is attempted: whatever the later entries are, the call
  ends with that exception, with what was printed and with the file system as the failing
  entry left them.
\<close>

theorem io_failure_aborts:
  assumes "write_loop env earlier \<lparr>written = [], printed = [], fsys = fs\<rparr> = Inr st"
      and "write_one env item st = Inl (e, st')"
  shows "write_files env (earlier @ item # later) fs = (Inl e, printed st', fsys st')"
proof -
  have "write_loop env (earlier @ item # later) st0 = Inl (e, st')"
    if "write_loop env earlier st0 = Inr st" for st0
    using that assms(2)
    by (induction earlier arbitrary: st0) (auto split: sum.splits)
  from this[OF assms(1)] show ?thesis by (simp add: write_files_def)
qed

theorem io_failure_aborts_witness:
  "write_files (open_denied ''b.txt'')
      [(''a.txt'', ''one''), (''b.txt'', ''two''), (''c.txt'', ''three'')] empty_fs
     = (Inl (OSError ''b.txt''), [(Stdout, ''  Written: a.txt  (3 chars)'')],
        \<lparr>stored = [''a.txt'' \<mapsto> ''one''], dirs = {}\<rparr>)"
proof -
  let ?st = "\<lparr>written = [''a.txt''], printed = [(Stdout, ''  Written: a.txt  (3 chars)'')],
              fsys = \<lparr>stored = [''a.txt'' \<mapsto> ''one''], dirs = {}\<rparr>\<rparr>"
  have n: "normpath ''a.txt'' = ''a.txt''" "normpath ''b.txt'' = ''b.txt''" by code_simp+
  have d: "dirname ''a.txt'' = []" "dirname ''b.txt'' = []" by code_simp+
  have l: "written_line ''a.txt'' ''one'' = ''  Written: a.txt  (3 chars)''"
    by code_simp
  have h1: "write_loop (open_denied ''b.txt'') [(''a.txt'', ''one'')]
              \<lparr>written = [], printed = [], fsys = empty_fs\<rparr> = Inr ?st"
    by (simp add: n d l Let_def write_one_def makedirs_def open_write_def
          no_failures_def open_denied_def empty_fs_def)
  have h2: "write_one (open_denied ''b.txt'') (''b.txt'', ''two'') ?st
              = Inl (OSError ''b.txt'', ?st)"
    by (simp add: n d Let_def write_one_def makedirs_def open_write_def
          no_failures_def open_denied_def)
  from io_failure_aborts[OF h1 h2, of "[(''c.txt'', ''three'')]"] show ?thesis by simp
qed

end
